theory Spec2Isabelle
  imports Main
begin

section \<open>Text, characters and the string methods of the source\<close>

text \<open>
  A Python \<open>str\<close> is modelled as a \<open>string\<close> whose characters are the code points
  U+0000 .. U+00FF.  On this range the classes below are exactly the ones Python uses:
  \<open>str.isspace\<close> and the pattern \<open>\s\<close> agree, \<open>\d\<close> is \<open>0-9\<close>, and case-insensitive
  matching only relates the ASCII letters.
\<close>

definition NL :: char where
  "NL = CHR 0x0A"

definition CR :: char where
  "CR = CHR 0x0D"

definition is_space :: "char \<Rightarrow> bool" where
  "is_space c \<longleftrightarrow> c \<in> set [CHR 0x09, CHR 0x0A, CHR 0x0B, CHR 0x0C, CHR 0x0D,
      CHR 0x1C, CHR 0x1D, CHR 0x1E, CHR 0x1F, CHR 0x20, CHR 0x85, CHR 0xA0]"

definition is_linebreak :: "char \<Rightarrow> bool" where
  "is_linebreak c \<longleftrightarrow> c \<in> set [CHR 0x0A, CHR 0x0B, CHR 0x0C, CHR 0x0D,
      CHR 0x1C, CHR 0x1D, CHR 0x1E, CHR 0x85]"

definition is_hspace :: "char \<Rightarrow> bool" where
  "is_hspace c \<longleftrightarrow> c = CHR '' '' \<or> c = CHR 0x09"

definition is_digit :: "char \<Rightarrow> bool" where
  "is_digit c \<longleftrightarrow> c \<in> set ''0123456789''"

definition is_upper :: "char \<Rightarrow> bool" where
  "is_upper c \<longleftrightarrow> c \<in> set ''ABCDEFGHIJKLMNOPQRSTUVWXYZ''"

definition is_lower :: "char \<Rightarrow> bool" where
  "is_lower c \<longleftrightarrow> c \<in> set ''abcdefghijklmnopqrstuvwxyz''"

definition is_alpha :: "char \<Rightarrow> bool" where
  "is_alpha c \<longleftrightarrow> is_upper c \<or> is_lower c"

definition to_lower :: "char \<Rightarrow> char" where
  "to_lower c =
     (case map_of (zip ''ABCDEFGHIJKLMNOPQRSTUVWXYZ'' ''abcdefghijklmnopqrstuvwxyz'') c of
        None \<Rightarrow> c
      | Some l \<Rightarrow> l)"

text \<open>Flag \<open>(?i)\<close>: a pattern character \<open>p\<close> matches \<open>c\<close> up to ASCII case.\<close>

definition ci_eq :: "char \<Rightarrow> char \<Rightarrow> bool" where
  "ci_eq p c \<longleftrightarrow> to_lower c = to_lower p"

definition ci_in :: "string \<Rightarrow> char \<Rightarrow> bool" where
  "ci_in ps c \<longleftrightarrow> list_ex (\<lambda>p. ci_eq p c) ps"

definition lstrip :: "string \<Rightarrow> string" where
  "lstrip s = dropWhile is_space s"

definition rstrip :: "string \<Rightarrow> string" where
  "rstrip s = rev (dropWhile is_space (rev s))"

definition strip :: "string \<Rightarrow> string" where
  "strip s = rstrip (lstrip s)"

text \<open>\<open>s[i:j]\<close> for \<open>0 \<le> i\<close>, \<open>0 \<le> j\<close>.\<close>

definition slice :: "string \<Rightarrow> nat \<Rightarrow> nat \<Rightarrow> string" where
  "slice s i j = take (j - i) (drop i s)"

text \<open>
  \<open>str.splitlines()\<close>: a line ends at any line-break character, \<open>\r\n\<close> counts as one
  break, and a final break does not open a further, empty line.
\<close>

fun splitlines :: "string \<Rightarrow> string list" where
  "splitlines [] = []"
| "splitlines [c] = (if is_linebreak c then [[]] else [[c]])"
| "splitlines (c # d # cs) =
     (if c = CR \<and> d = NL then [] # splitlines cs
      else if is_linebreak c then [] # splitlines (d # cs)
      else (case splitlines (d # cs) of [] \<Rightarrow> [[c]] | l # ls \<Rightarrow> (c # l) # ls))"

text \<open>\<open>"\n".join(lines)\<close>\<close>

fun join_nl :: "string list \<Rightarrow> string" where
  "join_nl [] = []"
| "join_nl [l] = l"
| "join_nl (l # m # ls) = l @ NL # join_nl (m # ls)"

section \<open>The regular expressions of the source\<close>

text \<open>
  A cursor is a position in the subject string: the text still to be read, and whether the
  position is at the start of a line (position 0, or just after a newline), which is all
  that \<open>^\<close> under flag \<open>(?m)\<close> looks at.

  \<open>ends r cur\<close> lists the cursors at which a match of \<open>r\<close> that starts at \<open>cur\<close> can end,
  in the order in which Python's backtracking matcher tries them: a greedy repetition
  offers the longest run first, an optional item is tried before it is skipped, the left
  alternative before the right one.  The match that \<open>re\<close> reports is the first of them.
\<close>

type_synonym cursor = "bool \<times> string"

datatype rx =
    Bol
  | Eol
  | Eps
  | Cls "char \<Rightarrow> bool"
  | Rep "char \<Rightarrow> bool" nat
  | Opt rx
  | Alt rx rx
  | Seq rx rx

definition skip :: "nat \<Rightarrow> cursor \<Rightarrow> cursor" where
  "skip j cur = (if j = 0 then cur else (snd cur ! (j - 1) = NL, drop j (snd cur)))"

fun ends :: "rx \<Rightarrow> cursor \<Rightarrow> cursor list" where
  "ends Bol cur = (if fst cur then [cur] else [])"
| "ends Eol cur = (case snd cur of [] \<Rightarrow> [cur] | c # _ \<Rightarrow> if c = NL then [cur] else [])"
| "ends Eps cur = [cur]"
| "ends (Cls P) cur = (case snd cur of [] \<Rightarrow> [] | c # cs \<Rightarrow> if P c then [(c = NL, cs)] else [])"
| "ends (Rep P k) cur = map (\<lambda>j. skip j cur) (rev [k ..< Suc (length (takeWhile P (snd cur)))])"
| "ends (Opt r) cur = ends r cur @ [cur]"
| "ends (Alt r1 r2) cur = ends r1 cur @ ends r2 cur"
| "ends (Seq r1 r2) cur = concat (map (ends r2) (ends r1 cur))"

text \<open>
  A pattern is written as the list of its consecutive parts, so that a capture group is
  one part.  \<open>ends_parts\<close> lists, in the matcher's order, the cursors reached after each
  part; \<open>rx_match\<close> is the match found at a cursor, if any.
\<close>

fun ends_parts :: "rx list \<Rightarrow> cursor \<Rightarrow> cursor list list" where
  "ends_parts [] cur = [[]]"
| "ends_parts (r # rs) cur =
     concat (map (\<lambda>c'. map ((#) c') (ends_parts rs c')) (ends r cur))"

definition rx_match :: "rx list \<Rightarrow> cursor \<Rightarrow> cursor list option" where
  "rx_match rs cur = (case ends_parts rs cur of [] \<Rightarrow> None | m # _ \<Rightarrow> Some m)"

definition m_end :: "cursor \<Rightarrow> cursor list \<Rightarrow> cursor" where
  "m_end cur m = (if m = [] then cur else last m)"

text \<open>The text between two cursors of one match (\<open>m.group(i)\<close>).\<close>

definition between :: "cursor \<Rightarrow> cursor \<Rightarrow> string" where
  "between c1 c2 = take (length (snd c1) - length (snd c2)) (snd c1)"

text \<open>
  \<open>finditer\<close>: the matches from left to right, each search starting where the previous
  match ended.  Every match is returned with its start offset.  (No pattern of the program
  matches the empty string; after an empty match the scan moves on by one character.)
\<close>

function finditer :: "rx list \<Rightarrow> nat \<Rightarrow> cursor \<Rightarrow> (nat \<times> cursor list) list" where
  "finditer rs pos cur =
     (case rx_match rs cur of
        Some m \<Rightarrow>
          if length (snd (m_end cur m)) < length (snd cur)
          then (pos, m) # finditer rs (pos + (length (snd cur) - length (snd (m_end cur m)))) (m_end cur m)
          else (pos, m) # (case snd cur of [] \<Rightarrow> []
                 | c # cs \<Rightarrow> finditer rs (Suc pos) (c = NL, cs))
      | None \<Rightarrow> (case snd cur of [] \<Rightarrow> []
                 | c # cs \<Rightarrow> finditer rs (Suc pos) (c = NL, cs)))"
  by pat_completeness auto
termination
  by (relation "measure (\<lambda>(rs, pos, cur). length (snd cur))") auto

text \<open>\<open>re.sub(pattern, rep, s)\<close> is \<open>rx_sub pattern rep (True, s)\<close>.\<close>

function rx_sub :: "rx list \<Rightarrow> string \<Rightarrow> cursor \<Rightarrow> string" where
  "rx_sub rs rep cur =
     (case rx_match rs cur of
        Some m \<Rightarrow>
          if length (snd (m_end cur m)) < length (snd cur)
          then rep @ rx_sub rs rep (m_end cur m)
          else rep @ (case snd cur of [] \<Rightarrow> []
                 | c # cs \<Rightarrow> c # rx_sub rs rep (c = NL, cs))
      | None \<Rightarrow> (case snd cur of [] \<Rightarrow> []
                 | c # cs \<Rightarrow> c # rx_sub rs rep (c = NL, cs)))"
  by pat_completeness auto
termination
  by (relation "measure (\<lambda>(rs, rep, cur). length (snd cur))") auto

text \<open>A literal word under flag \<open>(?i)\<close>.\<close>

fun lit_ci :: "string \<Rightarrow> rx" where
  "lit_ci [] = Eps"
| "lit_ci (p # ps) = Seq (Cls (ci_eq p)) (lit_ci ps)"

text \<open>
  \<open>(?im)^\s*WORD\s+\<close>, the common beginning of the four patterns of structure detection.
\<close>

definition keyword_rx :: "string \<Rightarrow> rx" where
  "keyword_rx w = Seq Bol (Seq (Rep is_space 0) (Seq (lit_ci w) (Rep is_space 1)))"

text \<open>
  \<open>PASAL_ANY_RE = (?im)^\s*Pasal\s+((\d+[A-Za-z]?)|([IVXLCM]+))\s*$\<close>,
  in three parts: up to group 1, group 1, after group 1.
\<close>

definition PASAL_ANY_RE :: "rx list" where
  "PASAL_ANY_RE =
     [keyword_rx ''Pasal'',
      Alt (Seq (Rep is_digit 1) (Opt (Cls is_alpha))) (Rep (ci_in ''IVXLCM'') 1),
      Seq (Rep is_space 0) Eol]"

text \<open>
  \<open>(?im)^\s*WORD\s+([...]+)\s*(.*)$\<close> for \<open>BUKU_RE\<close>, \<open>BAB_RE\<close> and \<open>BAGIAN_RE\<close>:
  group 1 is the second part, group 2 the fourth.
\<close>

definition marker_rx :: "string \<Rightarrow> (char \<Rightarrow> bool) \<Rightarrow> rx list" where
  "marker_rx w cls =
     [keyword_rx w, Rep cls 1, Rep is_space 0, Rep (\<lambda>c. c \<noteq> NL) 0, Eol]"

definition BUKU_RE :: "rx list" where
  "BUKU_RE = marker_rx ''BUKU'' (ci_in ''IVXLC'')"

definition BAB_RE :: "rx list" where
  "BAB_RE = marker_rx ''BAB'' (ci_in ''IVXLC'')"

definition BAGIAN_RE :: "rx list" where
  "BAGIAN_RE = marker_rx ''Bagian'' (\<lambda>c. is_digit c \<or> ci_in ''IVXLC'' c)"

text \<open>
  \<open>(?im)^\s*Pasal\s+\<close> + \<open>re.escape(pasal_label)\<close> + \<open>\s*$\<close>, the pattern that removes a
  block's own header.
\<close>

definition own_header_rx :: "string \<Rightarrow> rx list" where
  "own_header_rx label = [keyword_rx ''Pasal'', lit_ci label, Seq (Rep is_space 0) Eol]"

section \<open>Structure detection\<close>

type_synonym tag = "string \<times> string \<times> string"

record block =
  b_pasal_number :: string
  b_text :: string
  b_buku :: "tag option"
  b_bab :: "tag option"
  b_bagian :: "tag option"

fun line_starts :: "nat \<Rightarrow> string list \<Rightarrow> nat list" where
  "line_starts pos [] = []"
| "line_starts pos (ln # lns) = pos # line_starts (pos + length ln + 1) lns"

text \<open>The marks of one family: for every line that the family's pattern matches, the
  offset recorded for the line and the tag \<open>(KIND, group 1, group 2)\<close>.\<close>

definition mark_of_line :: "string \<Rightarrow> rx list \<Rightarrow> nat \<times> string \<Rightarrow> (nat \<times> tag) list" where
  "mark_of_line kind re pl =
     (case rx_match re (True, snd pl) of
        None \<Rightarrow> []
      | Some m \<Rightarrow> [(fst pl, (kind, strip (between (m ! 0) (m ! 1)), strip (between (m ! 2) (m ! 3))))])"

definition marks :: "string \<Rightarrow> rx list \<Rightarrow> string list \<Rightarrow> (nat \<times> tag) list" where
  "marks kind re lns = concat (map (mark_of_line kind re) (zip (line_starts 0 lns) lns))"

fun nearest_tag_from :: "tag option \<Rightarrow> nat \<Rightarrow> (nat \<times> tag) list \<Rightarrow> tag option" where
  "nearest_tag_from prev idx [] = prev"
| "nearest_tag_from prev idx ((p, tag) # ms) =
     (if p \<le> idx then nearest_tag_from (Some tag) idx ms else prev)"

definition nearest_tag :: "nat \<Rightarrow> (nat \<times> tag) list \<Rightarrow> tag option" where
  "nearest_tag idx ms = nearest_tag_from None idx ms"

text \<open>\<open>matches = list(PASAL_ANY_RE.finditer(full_text))\<close>\<close>

definition pasal_matches :: "string \<Rightarrow> (nat \<times> cursor list) list" where
  "pasal_matches full_text = finditer PASAL_ANY_RE 0 (True, full_text)"

text \<open>The \<open>(start, end)\<close> pairs of the loop over the matches.\<close>

definition block_spans :: "string \<Rightarrow> (nat \<times> nat) list" where
  "block_spans full_text =
     (let starts = map fst (pasal_matches full_text)
      in zip starts (tl starts @ [length full_text]))"

definition pasal_label :: "cursor list \<Rightarrow> string" where
  "pasal_label m = strip (between (m ! 0) (m ! 1))"

definition block_body :: "string \<Rightarrow> string \<Rightarrow> nat \<times> nat \<Rightarrow> string" where
  "block_body full_text label se =
     (let body = strip (slice full_text (fst se) (snd se));
          body = strip (rx_sub (own_header_rx label) [] (True, body))
      in rx_sub [Rep is_hspace 1] '' '' (True, body))"

definition detect_structure :: "string \<Rightarrow> block list" where
  "detect_structure full_text =
     (let lns = splitlines full_text;
          buku_marks = marks ''BUKU'' BUKU_RE lns;
          bab_marks = marks ''BAB'' BAB_RE lns;
          bagian_marks = marks ''BAGIAN'' BAGIAN_RE lns
      in map (\<lambda>(m, se).
            \<lparr> b_pasal_number = pasal_label (snd m),
              b_text = block_body full_text (pasal_label (snd m)) se,
              b_buku = nearest_tag (fst se) buku_marks,
              b_bab = nearest_tag (fst se) bab_marks,
              b_bagian = nearest_tag (fst se) bagian_marks \<rparr>)
          (zip (pasal_matches full_text) (block_spans full_text)))"

section \<open>Minimal cleaning\<close>

text \<open>
  \<open>unicodedata.normalize('NFKC', t)\<close> is a library table and is a parameter \<open>nfkc\<close> of the
  normalizer.  On ASCII text it returns its argument.
\<close>

definition hyphen_rx :: "rx list" where
  "hyphen_rx = [Seq (Cls (\<lambda>c. c = CHR ''-'')) (Seq (Cls (\<lambda>c. c = NL)) (Rep is_space 0))]"

definition minimal_clean :: "(string \<Rightarrow> string) \<Rightarrow> string \<Rightarrow> string" where
  "minimal_clean nfkc t =
     (let t = filter (\<lambda>c. c \<noteq> CHR 0x00) t;
          t = nfkc t;
          t = rx_sub hyphen_rx [] (True, t);
          lns = map rstrip (splitlines t);
          txt = join_nl lns;
          txt = rx_sub [Rep (\<lambda>c. c = NL) 4] [NL, NL] (True, txt);
          txt = rx_sub [Rep is_hspace 2] '' '' (True, txt)
      in strip txt)"

section \<open>Text source\<close>

text \<open>
  The two PDF libraries are parameters: each either fails with an exception or returns
  the text it extracted (for \<open>pypdf\<close>, the text of each page).  The NFKC table completes
  the environment of record building.
\<close>

datatype error = Exception string

record world =
  pypdf_pages :: "string \<Rightarrow> error + string list"
  pdfminer_text :: "string \<Rightarrow> error + string"
  nfkc_table :: "string \<Rightarrow> string"

definition remove_cr :: "string \<Rightarrow> string" where
  "remove_cr t = filter (\<lambda>c. c \<noteq> CR) t"

definition extract_with_pypdf :: "world \<Rightarrow> string \<Rightarrow> error + string" where
  "extract_with_pypdf w pdf_path =
     (case pypdf_pages w pdf_path of
        Inl e \<Rightarrow> Inl e
      | Inr pages \<Rightarrow> Inr (join_nl (map remove_cr pages)))"

definition extract_with_pdfminer :: "world \<Rightarrow> string \<Rightarrow> error + string" where
  "extract_with_pdfminer w pdf_path =
     (case pdfminer_text w pdf_path of
        Inl e \<Rightarrow> Inl e
      | Inr txt \<Rightarrow> Inr (remove_cr txt))"

definition read_pdf_text :: "world \<Rightarrow> string \<Rightarrow> string" where
  "read_pdf_text w pdf_path =
     (let txt = (case extract_with_pypdf w pdf_path of Inl e \<Rightarrow> [] | Inr t \<Rightarrow> t)
      in if length txt < 500
         then (case extract_with_pdfminer w pdf_path of
                 Inr alt \<Rightarrow> if length alt > length txt then alt else txt
               | Inl e \<Rightarrow> txt)
         else txt)"

section \<open>Records\<close>

record doc_config =
  pdf :: string
  uu_code :: string
  uu_name :: string
  uu_number :: string
  year :: int
  valid_from :: "string option"
  valid_to :: "string option"

definition PDF_FILES :: "doc_config list" where
  "PDF_FILES =
    [\<lparr>pdf = ''pdf/UU Nomor 1 Tahun 2023.pdf'', uu_code = ''UU_CIPTA_KERJA_2023'',
      uu_name = ''Undang-Undang Cipta Kerja'', uu_number = ''UU No. 1 Tahun 2023'',
      year = 2023, valid_from = None, valid_to = None\<rparr>,
     \<lparr>pdf = ''pdf/UU Nomor 1 Tahun 2024.pdf'', uu_code = ''UU_ITE_2024'',
      uu_name = ''Undang-Undang Informasi dan Transaksi Elektronik (Perubahan 2024)'',
      uu_number = ''UU No. 1 Tahun 2024'', year = 2024, valid_from = None, valid_to = None\<rparr>,
     \<lparr>pdf = ''pdf/UU Nomor 6 Tahun 2023.pdf'', uu_code = ''KUHP_2023'',
      uu_name = ''Kitab Undang-Undang Hukum Pidana (KUHP)'', uu_number = ''UU No. 6 Tahun 2023'',
      year = 2023, valid_from = Some ''2023-03-31'', valid_to = None\<rparr>,
     \<lparr>pdf = ''pdf/UU Nomor 8 Tahun 1999.pdf'', uu_code = ''UU_PERLINDUNGAN_KONSUMEN_1999'',
      uu_name = ''Undang-Undang Perlindungan Konsumen'', uu_number = ''UU No. 8 Tahun 1999'',
      year = 1999, valid_from = None, valid_to = None\<rparr>,
     \<lparr>pdf = ''pdf/UU Nomor 16 Tahun 2019.pdf'', uu_code = ''UU_PERKAWINAN_2019'',
      uu_name = ''Undang-Undang Perkawinan'', uu_number = ''UU No. 16 Tahun 2019'',
      year = 2019, valid_from = None, valid_to = None\<rparr>,
     \<lparr>pdf = ''pdf/UU Nomor 27 Tahun 2022.pdf'', uu_code = ''UU_PDP_2022'',
      uu_name = ''Undang-Undang Perlindungan Data Pribadi'', uu_number = ''UU No. 27 Tahun 2022'',
      year = 2022, valid_from = None, valid_to = None\<rparr>,
     \<lparr>pdf = ''pdf/UU Nomor 35 Tahun 2009.pdf'', uu_code = ''UU_NARKOTIKA_2009'',
      uu_name = ''Undang-Undang Narkotika'', uu_number = ''UU No. 35 Tahun 2009'',
      year = 2009, valid_from = None, valid_to = None\<rparr>,
     \<lparr>pdf = ''pdf/UU Nomor 35 Tahun 2014.pdf'', uu_code = ''UU_PERLINDUNGAN_ANAK_2014'',
      uu_name = ''Undang-Undang Perlindungan Anak'', uu_number = ''UU No. 35 Tahun 2014'',
      year = 2014, valid_from = None, valid_to = None\<rparr>]"

record out_record =
  r_uu_code :: string
  r_uu_name :: string
  r_uu_number :: string
  r_year :: int
  r_section_type :: string
  r_title :: string
  r_pasal_number :: string
  r_ayat_number :: "string option"
  r_buku :: "string option"
  r_bab :: "string option"
  r_bagian :: "string option"
  r_valid_from :: "string option"
  r_valid_to :: "string option"
  r_source_file :: string
  r_text :: string

text \<open>\<open>Path(p).name\<close> on a POSIX path: the last component, \<open>.\<close> components dropped.\<close>

fun split_on :: "char \<Rightarrow> string \<Rightarrow> string list" where
  "split_on sep [] = [[]]"
| "split_on sep (c # cs) =
     (if c = sep then [] # split_on sep cs
      else (case split_on sep cs of [] \<Rightarrow> [[c]] | p # ps \<Rightarrow> (c # p) # ps))"

definition path_name :: "string \<Rightarrow> string" where
  "path_name p =
     (case filter (\<lambda>q. q \<noteq> [] \<and> q \<noteq> ''.'') (split_on (CHR ''/'') p) of
        [] \<Rightarrow> []
      | q # qs \<Rightarrow> last (q # qs))"

text \<open>The second component of a tag, or null: \<open>(obj[1] if obj else None)\<close>.\<close>

definition tag_label :: "tag option \<Rightarrow> string option" where
  "tag_label obj = (case obj of None \<Rightarrow> None | Some tg \<Rightarrow> Some (fst (snd tg)))"

definition make_record :: "(string \<Rightarrow> string) \<Rightarrow> doc_config \<Rightarrow> block \<Rightarrow> out_record" where
  "make_record nfkc cfg blk =
     \<lparr> r_uu_code = uu_code cfg,
       r_uu_name = uu_name cfg,
       r_uu_number = uu_number cfg,
       r_year = year cfg,
       r_section_type = ''PASAL'',
       r_title = ''Pasal '' @ b_pasal_number blk,
       r_pasal_number = b_pasal_number blk,
       r_ayat_number = None,
       r_buku = tag_label (b_buku blk),
       r_bab = tag_label (b_bab blk),
       r_bagian = tag_label (b_bagian blk),
       r_valid_from = valid_from cfg,
       r_valid_to = valid_to cfg,
       r_source_file = path_name (pdf cfg),
       r_text = minimal_clean nfkc (b_text blk) \<rparr>"

text \<open>\<open>build_records_per_pdf\<close> from the check of \<open>raw_text\<close> on.\<close>

definition records_of_text :: "(string \<Rightarrow> string) \<Rightarrow> doc_config \<Rightarrow> string \<Rightarrow> out_record list" where
  "records_of_text nfkc cfg raw_text =
     (if raw_text = [] \<or> strip raw_text = [] then []
      else map (make_record nfkc cfg) (detect_structure raw_text))"

definition build_records_per_pdf :: "world \<Rightarrow> doc_config \<Rightarrow> out_record list" where
  "build_records_per_pdf w cfg = records_of_text (nfkc_table w) cfg (read_pdf_text w (pdf cfg))"

section \<open>The run over the catalog\<close>
















text \<open>The text covered by a list of spans, in order.\<close>

definition spans_text :: "string \<Rightarrow> (nat \<times> nat) list \<Rightarrow> string" where
  "spans_text t sp = concat (map (\<lambda>se. slice t (fst se) (snd se)) sp)"

text \<open>
  The specification's nearest marker: \<open>r\<close> is null when every mark lies after \<open>idx\<close>, and
  otherwise the tag of a mark at or before \<open>idx\<close> that no other such mark exceeds.
\<close>

definition nearest_at_or_before :: "nat \<Rightarrow> (nat \<times> tag) list \<Rightarrow> tag option \<Rightarrow> bool" where
  "nearest_at_or_before idx ms r \<longleftrightarrow>
     (case r of
        None \<Rightarrow> (\<forall>qm\<in>set ms. idx < fst qm)
      | Some tg \<Rightarrow> (\<exists>p. (p, tg) \<in> set ms \<and> p \<le> idx \<and> (\<forall>qm\<in>set ms. fst qm \<le> idx \<longrightarrow> fst qm \<le> p)))"


text \<open>
  The header patterns read as a deterministic parse of the text at a line start: leading
  whitespace, the keyword up to case, at least one whitespace character, the label, and
  whitespace up to the end of a line.  \<open>header_parse lab s\<close> returns the offset of the label,
  its length and the length of the trailing whitespace that the match takes; lemmas
  \<open>rx_match_PASAL\<close> and \<open>rx_match_own\<close> show that this is what the matcher computes.
\<close>

definition ci_prefix :: "string \<Rightarrow> string \<Rightarrow> bool" where
  "ci_prefix w x \<longleftrightarrow> length w \<le> length x \<and> list_all2 ci_eq w (take (length w) x)"

text \<open>The ends that \<open>\s*$\<close> offers: the numbers of whitespace characters consumed, longest first.\<close>

definition trail_js :: "string \<Rightarrow> nat list" where
  "trail_js s = filter (\<lambda>j. drop j s = [] \<or> s ! j = NL)
                  (rev [0 ..< Suc (length (takeWhile is_space s))])"

text \<open>The length of the label \<open>(\d+[A-Za-z]?)|([IVXLCM]+)\<close> that the matcher settles on when
  whitespace or the end of the text follows.\<close>

definition label_len :: "string \<Rightarrow> nat" where
  "label_len x =
     (let nd = length (takeWhile is_digit x)
      in if 1 \<le> nd then (if nd < length x \<and> is_alpha (x ! nd) then Suc nd else nd)
         else length (takeWhile (ci_in ''IVXLCM'') x))"

definition label_any :: "string \<Rightarrow> nat option" where
  "label_any x = (if 1 \<le> label_len x then Some (label_len x) else None)"

definition label_own :: "string \<Rightarrow> string \<Rightarrow> nat option" where
  "label_own L x = (if ci_prefix L x then Some (length L) else None)"

definition header_parse :: "(string \<Rightarrow> nat option) \<Rightarrow> string \<Rightarrow> (nat \<times> nat \<times> nat) option" where
  "header_parse lab s =
     (let n1 = length (takeWhile is_space s);
          n2 = length (takeWhile is_space (drop (n1 + 5) s));
          k3 = n1 + 5 + n2
      in if ci_prefix ''Pasal'' (drop n1 s) \<and> 1 \<le> n2
         then (case lab (drop k3 s) of
                 None \<Rightarrow> None
               | Some ll \<Rightarrow> (case trail_js (drop (k3 + ll) s) of
                               [] \<Rightarrow> None
                             | j # _ \<Rightarrow> Some (k3, ll, j)))
         else None)"

text \<open>The cursors of the match that belongs to a parse.\<close>

definition header_cursors :: "cursor \<Rightarrow> nat \<times> nat \<times> nat \<Rightarrow> cursor list" where
  "header_cursors cur = (\<lambda>(k3, ll, j). [skip k3 cur, skip (k3 + ll) cur, skip (k3 + ll + j) cur])"

text \<open>A pattern none of whose matches is empty.\<close>

definition consuming :: "rx list \<Rightarrow> bool" where
  "consuming rs \<longleftrightarrow> (\<forall>cur m. rx_match rs cur = Some m \<longrightarrow> length (snd (m_end cur m)) < length (snd cur))"

text \<open>\<open>m.end(1)\<close>: the offset at which the label of a header match ends.\<close>

definition label_end :: "string \<Rightarrow> cursor list \<Rightarrow> nat" where
  "label_end full_text m = length full_text - length (snd (m ! 1))"

text \<open>
  The specification's markers, read off the text itself and not off the lines and offsets
  that structure detection records.  A line begins at offset \<open>p\<close> when \<open>p\<close> is 0 or
  follows a line break (\<open>\r\n\<close> is one break); the line is the text from \<open>p\<close> up to the
  next line-break character; a marker of a family is a line that the family's pattern
  matches, at the offset where the line begins, with the tag \<open>(KIND, group 1, group 2)\<close>.
\<close>

definition crlf :: "char \<Rightarrow> char \<Rightarrow> bool" where
  "crlf c d \<longleftrightarrow> c = CR \<and> d = NL"

definition line_begins_at :: "string \<Rightarrow> nat \<Rightarrow> bool" where
  "line_begins_at t p \<longleftrightarrow>
     p < length t \<and> (p = 0 \<or> (is_linebreak (t ! (p - 1)) \<and> \<not> crlf (t ! (p - 1)) (t ! p)))"

definition line_at :: "string \<Rightarrow> nat \<Rightarrow> string" where
  "line_at t p = takeWhile (\<lambda>c. \<not> is_linebreak c) (drop p t)"

definition markers_in_text :: "string \<Rightarrow> rx list \<Rightarrow> string \<Rightarrow> (nat \<times> tag) list" where
  "markers_in_text kind re t =
     concat (map (\<lambda>p. if line_begins_at t p
                       then (case rx_match re (True, line_at t p) of
                               None \<Rightarrow> []
                             | Some m \<Rightarrow> [(p, (kind, strip (between (m ! 0) (m ! 1)),
                                              strip (between (m ! 2) (m ! 3))))])
                       else [])
                 [0 ..< length t])"

text \<open>Eight lines ending in \<open>\r\n\<close>, an article header, and a chapter heading after it.\<close>

definition crlf_text :: string where
  "crlf_text = concat (replicate 8 [CHR ''a'', CR, NL]) @ ''Pasal 1'' @ [CR, NL] @ ''BAB I''"


section \<open>The substitutions of the normalizer, read directly\<close>

text \<open>Rule 4 of the normalizer: \<open>"\n".join(ln.rstrip() for ln in t.splitlines())\<close>.\<close>

definition rstrip_lines :: "string \<Rightarrow> string" where
  "rstrip_lines x = join_nl (map rstrip (splitlines x))"


text \<open>
  What \<open>re.sub\<close> does for a pattern \<open>[class]{k,}\<close>: scanning from the left, a maximal
  run of at least \<open>k\<close> characters of the class is replaced by \<open>rep\<close>.  The equality with
  \<open>rx_sub\<close> is lemma \<open>rx_sub_Rep\<close>.
\<close>

function collapse_runs :: "(char \<Rightarrow> bool) \<Rightarrow> nat \<Rightarrow> string \<Rightarrow> string \<Rightarrow> string" where
  "collapse_runs P k rep [] = []"
| "collapse_runs P k rep (c # cs) =
     (if P c \<and> k \<le> length (takeWhile P (c # cs))
      then rep @ collapse_runs P k rep (dropWhile P cs)
      else c # collapse_runs P k rep cs)"
  by pat_completeness auto
termination
  by (relation "measure (\<lambda>(P, k, rep, s). length s)")
     (auto simp: less_Suc_eq_le length_dropWhile_le)

text \<open>
  What \<open>re.sub(r'-\n\s*', '', t)\<close> does (lemma \<open>rx_sub_hyphen\<close>), and the test whether a
  text holds a hyphen immediately followed by a newline.
\<close>

function hyphen_join :: "string \<Rightarrow> string" where
  "hyphen_join [] = []"
| "hyphen_join [c] = [c]"
| "hyphen_join (c # d # cs) =
     (if c = CHR ''-'' \<and> d = NL then hyphen_join (dropWhile is_space cs)
      else c # hyphen_join (d # cs))"
  by pat_completeness auto
termination
  by (relation "measure length")
     (auto simp: less_Suc_eq_le intro: le_trans[OF length_dropWhile_le])

fun hyphen_nl :: "string \<Rightarrow> bool" where
  "hyphen_nl (c # d # cs) = ((c = CHR ''-'' \<and> d = NL) \<or> hyphen_nl (d # cs))"
| "hyphen_nl cs = False"


text \<open>
  Shapes of text: no two adjacent characters related by \<open>R\<close>; every run of characters
  of a class shorter than \<open>k\<close>; no line-break character other than the newline; a
  whitespace character directly before a newline.
\<close>

fun no_pair :: "(char \<Rightarrow> char \<Rightarrow> bool) \<Rightarrow> string \<Rightarrow> bool" where
  "no_pair R (c # d # cs) = (\<not> R c d \<and> no_pair R (d # cs))"
| "no_pair R cs = True"

fun runs_below :: "(char \<Rightarrow> bool) \<Rightarrow> nat \<Rightarrow> string \<Rightarrow> bool" where
  "runs_below P k [] = True"
| "runs_below P k (c # cs) = (length (takeWhile P (c # cs)) < k \<and> runs_below P k cs)"

definition only_nl :: "string \<Rightarrow> bool" where
  "only_nl s \<longleftrightarrow> (\<forall>c\<in>set s. is_linebreak c \<longrightarrow> c = NL)"

definition space_before_nl :: "char \<Rightarrow> char \<Rightarrow> bool" where
  "space_before_nl c d \<longleftrightarrow> is_space c \<and> c \<noteq> NL \<and> d = NL"


text \<open>
  A world for examples: \<open>pypdf\<close> extracts the single page \<open>txt\<close>, \<open>pdfminer\<close> fails,
  and the text is ASCII, which NFKC leaves as it is.
\<close>

definition example_world :: "string \<Rightarrow> world" where
  "example_world txt =
     \<lparr> pypdf_pages = (\<lambda>p. Inr [txt]),
       pdfminer_text = (\<lambda>p. Inl (Exception ''pdfminer'')),
       nfkc_table = id \<rparr>"

section \<open>Basic facts about the matcher\<close>

lemma snd_skip [simp]: "snd (skip j cur) = drop j (snd cur)"
  by (simp add: skip_def)

lemma ci_eq_P: "ci_eq (CHR ''P'') c \<longleftrightarrow> c = CHR ''P'' \<or> c = CHR ''p''"
  by (simp add: ci_eq_def to_lower_def)

lemma space_not_P: "is_space c \<Longrightarrow> \<not> ci_eq (CHR ''P'') c"
  unfolding ci_eq_P by (auto simp: is_space_def)

lemma keyword_blank:
  assumes "\<forall>c\<in>set (snd cur). is_space c"
  shows "ends (keyword_rx ''Pasal'') cur = []"
proof -
  have "ends (Seq (lit_ci ''Pasal'') (Rep is_space 1)) (skip j cur) = []" for j
  proof (cases "drop j (snd cur)")
    case Nil then show ?thesis by simp
  next
    case (Cons c cs)
    then have "c \<in> set (snd cur)" by (metis in_set_dropD list.set_intros(1))
    with assms have "\<not> ci_eq (CHR ''P'') c" by (simp add: space_not_P)
    with Cons show ?thesis by simp
  qed
  then show ?thesis by (simp add: keyword_rx_def)
qed

lemma pasal_blank:
  "\<forall>c\<in>set (snd cur). is_space c \<Longrightarrow> rx_match PASAL_ANY_RE cur = None"
  by (simp add: rx_match_def PASAL_ANY_RE_def keyword_blank)

lemma finditer_none:
  assumes "\<And>b k. k \<le> length s \<Longrightarrow> rx_match rs (b, drop k s) = None"
  shows "finditer rs pos (b, s) = []"
  using assms
proof (induction s arbitrary: pos b)
  case Nil
  from Nil[of 0 b] show ?case by simp
next
  case (Cons c cs)
  have "rx_match rs (b, c # cs) = None" using Cons.prems[of 0 b] by simp
  moreover have "finditer rs (Suc pos) (c = NL, cs) = []"
  proof (rule Cons.IH)
    fix b' k assume "k \<le> length cs"
    then show "rx_match rs (b', drop k cs) = None" using Cons.prems[of "Suc k" b'] by simp
  qed
  ultimately show ?case by simp
qed

lemma pasal_matches_blank:
  assumes "\<forall>c\<in>set t. is_space c"
  shows "pasal_matches t = []"
  unfolding pasal_matches_def
proof (rule finditer_none)
  fix b k
  have "\<forall>c\<in>set (drop k t). is_space c" using assms by (meson in_set_dropD)
  then show "rx_match PASAL_ANY_RE (b, drop k t) = None" by (simp add: pasal_blank)
qed

lemma detect_structure_no_matches: "pasal_matches t = [] \<Longrightarrow> detect_structure t = []"
  by (simp add: detect_structure_def Let_def)

lemma all_dropWhile: "(\<forall>x\<in>set (dropWhile P t). P x) \<longleftrightarrow> (\<forall>x\<in>set t. P x)"
proof
  assume a: "\<forall>x\<in>set (dropWhile P t). P x"
  have "dropWhile P t = []"
  proof (rule ccontr)
    assume n: "dropWhile P t \<noteq> []"
    then have "\<not> P (hd (dropWhile P t))" by (rule hd_dropWhile)
    moreover have "hd (dropWhile P t) \<in> set (dropWhile P t)" using n by simp
    ultimately show False using a by blast
  qed
  then show "\<forall>x\<in>set t. P x" by (simp add: dropWhile_eq_Nil_conv)
next
  assume "\<forall>x\<in>set t. P x"
  then show "\<forall>x\<in>set (dropWhile P t). P x" by (meson set_dropWhileD)
qed

lemma strip_Nil_iff: "strip t = [] \<longleftrightarrow> (\<forall>c\<in>set t. is_space c)"
  by (simp add: strip_def rstrip_def lstrip_def dropWhile_eq_Nil_conv all_dropWhile)

lemma finditer_none_at:
  assumes "\<And>k. k \<le> length s \<Longrightarrow> rx_match rs (skip k (b, s)) = None"
  shows "finditer rs pos (b, s) = []"
  using assms
proof (induction s arbitrary: pos b)
  case Nil
  from Nil[of 0] show ?case by (simp add: skip_def)
next
  case (Cons c cs)
  have "rx_match rs (b, c # cs) = None" using Cons.prems[of 0] by (simp add: skip_def)
  moreover have "finditer rs (Suc pos) (c = NL, cs) = []"
  proof (rule Cons.IH)
    fix k assume k: "k \<le> length cs"
    have "skip k (c = NL, cs) = skip (Suc k) (b, c # cs)"
      by (cases k) (simp_all add: skip_def)
    then show "rx_match rs (skip k (c = NL, cs)) = None" using Cons.prems[of "Suc k"] k by simp
  qed
  ultimately show ?case by simp
qed

lemma detect_structure_blank: "\<forall>c\<in>set t. is_space c \<Longrightarrow> detect_structure t = []"
  by (simp add: detect_structure_no_matches pasal_matches_blank)

lemma records_of_text_map:
  "records_of_text nfkc cfg t = map (make_record nfkc cfg) (detect_structure t)"
proof (cases "t = [] \<or> strip t = []")
  case True
  then have "\<forall>c\<in>set t. is_space c" by (auto simp: strip_Nil_iff)
  then have "detect_structure t = []" by (rule detect_structure_blank)
  with True show ?thesis by (simp add: records_of_text_def)
next
  case False
  then show ?thesis by (simp add: records_of_text_def)
qed

lemma skip_0 [simp]: "skip 0 cur = cur" by (simp add: skip_def)

lemma skip_skip:
  assumes "j1 \<le> length (snd cur)"
  shows "skip j2 (skip j1 cur) = skip (j1 + j2) cur"
proof (cases "j2 = 0")
  case True then show ?thesis by simp
next
  case False
  then show ?thesis using assms by (cases j1) (auto simp: skip_def add.commute)
qed

lemma ends_skip:
  "c' \<in> set (ends r cur) \<Longrightarrow> \<exists>j. j \<le> length (snd cur) \<and> c' = skip j cur"
proof (induction r arbitrary: cur c')
  case Bol then show ?case by (auto split: if_splits intro: exI[of _ 0])
next
  case Eol then show ?case by (auto split: if_splits list.splits intro: exI[of _ 0])
next
  case Eps then show ?case by (auto intro: exI[of _ 0])
next
  case (Cls P)
  show ?case
  proof (cases "snd cur")
    case Nil
    with Cls show ?thesis by simp
  next
    case (Cons c cs)
    with Cls have "c' = skip 1 cur" by (auto simp: skip_def split: if_splits)
    with Cons show ?thesis by (intro exI[of _ 1]) simp
  qed
next
  case (Rep P k)
  let ?n = "length (takeWhile P (snd cur))"
  from Rep have "c' \<in> set (map (\<lambda>j. skip j cur) (rev [k ..< Suc ?n]))"
    by (simp only: ends.simps)
  then have "c' \<in> (\<lambda>j. skip j cur) ` {k..<Suc ?n}"
    by (simp only: set_map set_rev set_upt)
  then obtain j where j0: "j \<in> {k..<Suc ?n}" and cj: "c' = skip j cur" by (rule imageE)
  from j0 have j: "j \<le> ?n" by simp
  have "?n \<le> length (snd cur)" by (rule length_takeWhile_le)
  with j have "j \<le> length (snd cur)" by simp
  with cj show ?case by blast
next
  case (Opt r)
  from Opt.prems have "c' \<in> set (ends r cur) \<or> c' = cur" by auto
  then show ?case
  proof
    assume "c' \<in> set (ends r cur)" then show ?thesis by (rule Opt.IH)
  next
    assume "c' = cur" then show ?thesis by (intro exI[of _ 0]) simp
  qed
next
  case (Alt r1 r2)
  from Alt.prems have "c' \<in> set (ends r1 cur) \<or> c' \<in> set (ends r2 cur)" by auto
  then show ?case using Alt.IH by blast
next
  case (Seq r1 r2)
  from Seq.prems obtain c1 where c1: "c1 \<in> set (ends r1 cur)" "c' \<in> set (ends r2 c1)" by auto
  from Seq.IH(1)[OF c1(1)] obtain j1 where j1: "j1 \<le> length (snd cur)" "c1 = skip j1 cur" by auto
  from Seq.IH(2)[OF c1(2)] obtain j2 where j2: "j2 \<le> length (snd c1)" "c' = skip j2 c1" by auto
  have "c' = skip (j1 + j2) cur" using j1 j2 by (simp add: skip_skip)
  moreover have "j1 + j2 \<le> length (snd cur)" using j1 j2 by simp
  ultimately show ?case by blast
qed

lemma ends_parts_skip:
  "m \<in> set (ends_parts rs cur) \<Longrightarrow> \<exists>j. j \<le> length (snd cur) \<and> m_end cur m = skip j cur"
proof (induction rs arbitrary: cur m)
  case Nil
  then show ?case by (auto simp: m_end_def intro: exI[of _ 0])
next
  case (Cons r rs)
  from Cons.prems obtain c1 m' where c1: "c1 \<in> set (ends r cur)" "m' \<in> set (ends_parts rs c1)" "m = c1 # m'"
    by auto
  from ends_skip[OF c1(1)] obtain j1 where j1: "j1 \<le> length (snd cur)" "c1 = skip j1 cur" by auto
  from Cons.IH[OF c1(2)] obtain j2 where j2: "j2 \<le> length (snd c1)" "m_end c1 m' = skip j2 c1" by auto
  have "m_end cur m = m_end c1 m'" using c1(3) by (simp add: m_end_def)
  then have "m_end cur m = skip (j1 + j2) cur" using j1 j2 by (simp add: skip_skip)
  moreover have "j1 + j2 \<le> length (snd cur)" using j1 j2 by simp
  ultimately show ?case by blast
qed

lemma rx_match_end:
  assumes "rx_match rs cur = Some m"
  shows "\<exists>j. j \<le> length (snd cur) \<and> m_end cur m = skip j cur"
proof -
  from assms have "m \<in> set (ends_parts rs cur)"
    by (auto simp: rx_match_def split: list.splits)
  then show ?thesis by (rule ends_parts_skip)
qed

lemma rx_match_end_len:
  assumes "rx_match rs cur = Some m"
  shows "m_end cur m = skip (length (snd cur) - length (snd (m_end cur m))) cur"
proof -
  from rx_match_end[OF assms] obtain j where j: "j \<le> length (snd cur)" "m_end cur m = skip j cur" by auto
  then have "length (snd cur) - length (snd (m_end cur m)) = j" by simp
  with j show ?thesis by simp
qed

declare finditer.simps [simp del]

lemma skip_Suc_Cons: "skip (Suc k) (b, c # cs) = skip k (c = NL, cs)"
  by (cases k) (simp_all add: skip_def)

lemma finditer_sound:
  "(p, m) \<in> set (finditer rs pos cur) \<Longrightarrow>
     pos \<le> p \<and> p \<le> pos + length (snd cur) \<and> rx_match rs (skip (p - pos) cur) = Some m"
proof (induction rs pos cur arbitrary: p m rule: finditer.induct)
  case (1 rs pos cur)
  show ?case
  proof (cases "rx_match rs cur")
    case None
    show ?thesis
    proof (cases "snd cur")
      case Nil
      with None "1.prems" show ?thesis by (simp add: finditer.simps[of rs pos cur])
    next
      case (Cons c cs)
      with None "1.prems" have mem: "(p, m) \<in> set (finditer rs (Suc pos) (c = NL, cs))"
        by (simp add: finditer.simps[of rs pos cur])
      from "1.IH"(1)[OF None Cons mem]
      have ih: "Suc pos \<le> p" "p \<le> Suc pos + length cs" "rx_match rs (skip (p - Suc pos) (c = NL, cs)) = Some m"
        by simp_all
      have "cur = (fst cur, c # cs)" using Cons by (cases cur) simp
      then have "skip (p - pos) cur = skip (p - Suc pos) (c = NL, cs)"
        using ih(1) skip_Suc_Cons[of "p - Suc pos" "fst cur" c cs] by (simp add: Suc_diff_Suc)
      with ih Cons show ?thesis by simp
    qed
  next
    case (Some m0)
    show ?thesis
    proof (cases "length (snd (m_end cur m0)) < length (snd cur)")
      case True
      let ?n = "length (snd cur) - length (snd (m_end cur m0))"
      from Some True "1.prems" have
        "(p, m) = (pos, m0) \<or> (p, m) \<in> set (finditer rs (pos + ?n) (m_end cur m0))"
        by (simp add: finditer.simps[of rs pos cur])
      then show ?thesis
      proof
        assume "(p, m) = (pos, m0)"
        with Some show ?thesis by simp
      next
        assume mem: "(p, m) \<in> set (finditer rs (pos + ?n) (m_end cur m0))"
        from "1.IH"(2)[OF Some True mem]
        have ih: "pos + ?n \<le> p" "p \<le> pos + ?n + length (snd (m_end cur m0))"
          "rx_match rs (skip (p - (pos + ?n)) (m_end cur m0)) = Some m" by simp_all
        have e: "m_end cur m0 = skip ?n cur" by (rule rx_match_end_len[OF Some])
        have "skip (p - (pos + ?n)) (skip ?n cur) = skip (?n + (p - (pos + ?n))) cur"
          by (rule skip_skip) simp
        also have "?n + (p - (pos + ?n)) = p - pos" using ih(1) by simp
        finally have "skip (p - (pos + ?n)) (m_end cur m0) = skip (p - pos) cur" using e by simp
        with ih True show ?thesis by simp
      qed
    next
      case False
      show ?thesis
      proof (cases "snd cur")
        case Nil
        with Some False "1.prems" show ?thesis by (simp add: finditer.simps[of rs pos cur])
      next
        case (Cons c cs)
        with Some False "1.prems" have
          "(p, m) = (pos, m0) \<or> (p, m) \<in> set (finditer rs (Suc pos) (c = NL, cs))"
          by (simp add: finditer.simps[of rs pos cur])
        then show ?thesis
        proof
          assume "(p, m) = (pos, m0)"
          with Some show ?thesis by simp
        next
          assume mem: "(p, m) \<in> set (finditer rs (Suc pos) (c = NL, cs))"
          from "1.IH"(3)[OF Some False Cons mem]
          have ih: "Suc pos \<le> p" "p \<le> Suc pos + length cs" "rx_match rs (skip (p - Suc pos) (c = NL, cs)) = Some m"
            by simp_all
          have "cur = (fst cur, c # cs)" using Cons by (cases cur) simp
          then have "skip (p - pos) cur = skip (p - Suc pos) (c = NL, cs)"
            using ih(1) skip_Suc_Cons[of "p - Suc pos" "fst cur" c cs] by (simp add: Suc_diff_Suc)
          with ih Cons show ?thesis by simp
        qed
      qed
    qed
  qed
qed

section \<open>Record builder\<close>



section \<open>Empty input\<close>

text \<open>
  Claim C9.  When the extracted text is empty or consists of whitespace only, record
  building returns no record (and, being a total function, raises nothing); and a text
  in which the header pattern matches at no position yields the empty block list.
\<close>

theorem blank_or_headerless_text_yields_nothing:
  "((\<forall>c\<in>set (read_pdf_text w (pdf cfg)). is_space c) \<longrightarrow> build_records_per_pdf w cfg = [])
   \<and> ((\<forall>k\<in>set [0..<Suc (length t)]. rx_match PASAL_ANY_RE (skip k (True, t)) = None)
        \<longrightarrow> detect_structure t = [])"
proof (intro conjI impI)
  assume "\<forall>c\<in>set (read_pdf_text w (pdf cfg)). is_space c"
  then show "build_records_per_pdf w cfg = []"
    by (simp add: build_records_per_pdf_def records_of_text_map detect_structure_blank)
next
  assume a: "\<forall>k\<in>set [0..<Suc (length t)]. rx_match PASAL_ANY_RE (skip k (True, t)) = None"
  have "pasal_matches t = []"
    unfolding pasal_matches_def by (rule finditer_none_at) (use a in auto)
  then show "detect_structure t = []" by (rule detect_structure_no_matches)
qed

theorem blank_or_headerless_text_yields_nothing_witness:
  "build_records_per_pdf (example_world ''  \<newline> '') (hd PDF_FILES) = []
   \<and> detect_structure ''ayat (1)'' = []"
proof -
  have h1: "\<forall>c\<in>set (read_pdf_text (example_world ''  \<newline> '') (pdf (hd PDF_FILES))). is_space c"
    by code_simp
  have h2: "\<forall>k\<in>set [0..<Suc (length ''ayat (1)'')].
      rx_match PASAL_ANY_RE (skip k (True, ''ayat (1)'')) = None"
    by code_simp
  from blank_or_headerless_text_yields_nothing
    [of "example_world ''  \<newline> ''" "hd PDF_FILES" "''ayat (1)''"] h1 h2
  show ?thesis by blast
qed

section \<open>The run over the catalog\<close>







lemma finditer_starts_sorted: "sorted_wrt (<) (map fst (finditer rs pos cur))"
proof (induction rs pos cur rule: finditer.induct)
  case (1 rs pos cur)
  show ?case
  proof (cases "rx_match rs cur")
    case None
    show ?thesis
    proof (cases "snd cur")
      case Nil
      with None show ?thesis by (simp add: finditer.simps[of rs pos cur])
    next
      case (Cons c cs)
      with None "1.IH"(1)[OF None Cons] show ?thesis by (simp add: finditer.simps[of rs pos cur])
    qed
  next
    case (Some m0)
    show ?thesis
    proof (cases "length (snd (m_end cur m0)) < length (snd cur)")
      case True
      let ?n = "length (snd cur) - length (snd (m_end cur m0))"
      have gt: "pos < p" if "(p, m) \<in> set (finditer rs (pos + ?n) (m_end cur m0))" for p m
        using finditer_sound[OF that] True by linarith
      have "finditer rs pos cur = (pos, m0) # finditer rs (pos + ?n) (m_end cur m0)"
        using Some True by (simp add: finditer.simps[of rs pos cur])
      with "1.IH"(2)[OF Some True] gt show ?thesis by auto
    next
      case False
      show ?thesis
      proof (cases "snd cur")
        case Nil
        with Some False show ?thesis by (simp add: finditer.simps[of rs pos cur])
      next
        case (Cons c cs)
        have gt: "pos < p" if "(p, m) \<in> set (finditer rs (Suc pos) (c = NL, cs))" for p m
          using finditer_sound[OF that] by simp
        have "finditer rs pos cur = (pos, m0) # finditer rs (Suc pos) (c = NL, cs)"
          using Some False Cons by (simp add: finditer.simps[of rs pos cur])
        with "1.IH"(3)[OF Some False Cons] gt show ?thesis by auto
      qed
    qed
  qed
qed

lemma pasal_match_start:
  assumes "(p, m) \<in> set (pasal_matches t)"
  shows "p < length t"
proof -
  from finditer_sound[OF assms[unfolded pasal_matches_def]]
  have le: "p \<le> length t" and mt: "rx_match PASAL_ANY_RE (skip p (True, t)) = Some m" by simp_all
  show ?thesis
  proof (rule ccontr)
    assume "\<not> p < length t"
    with le have "snd (skip p (True, t)) = []" by simp
    then have "rx_match PASAL_ANY_RE (skip p (True, t)) = None" by (intro pasal_blank) simp
    with mt show False by simp
  qed
qed

lemma slice_append:
  assumes "i \<le> j" "j \<le> k"
  shows "slice t i j @ slice t j k = slice t i k"
proof -
  have "take (k - i) (drop i t) = take ((j - i) + (k - j)) (drop i t)" using assms by simp
  also have "\<dots> = take (j - i) (drop i t) @ take (k - j) (drop (j - i) (drop i t))"
    by (rule take_add)
  also have "drop (j - i) (drop i t) = drop j t" using assms by simp
  finally show ?thesis by (simp add: slice_def)
qed

lemma spans_concat:
  fixes xs :: "nat list"
  assumes "sorted_wrt (<) xs" "xs \<noteq> []" "\<forall>x\<in>set xs. x \<le> L"
  shows "concat (map (\<lambda>se. slice t (fst se) (snd se)) (zip xs (tl xs @ [L]))) = slice t (hd xs) L"
  using assms
proof (induction xs rule: induct_list012)
  case 1 then show ?case by simp
next
  case (2 x) then show ?case by simp
next
  case (3 x y zs)
  have "concat (map (\<lambda>se. slice t (fst se) (snd se)) (zip (y # zs) (tl (y # zs) @ [L]))) = slice t y L"
    using 3 by simp
  moreover have "x \<le> y" "y \<le> L" using 3 by auto
  ultimately show ?case by (simp add: slice_append)
qed

lemma spans_nth:
  fixes xs :: "nat list"
  assumes "Suc i < length xs"
  shows "snd (zip xs (tl xs @ [L]) ! i) = fst (zip xs (tl xs @ [L]) ! Suc i)"
proof -
  have "length (tl xs @ [L]) = length xs" using assms by simp
  then have "zip xs (tl xs @ [L]) ! i = (xs ! i, (tl xs @ [L]) ! i)"
    "zip xs (tl xs @ [L]) ! Suc i = (xs ! Suc i, (tl xs @ [L]) ! Suc i)"
    using assms by simp_all
  moreover have "(tl xs @ [L]) ! i = xs ! Suc i"
    using assms by (cases xs) (simp_all add: nth_append)
  ultimately show ?thesis by simp
qed

lemma spans_ordered:
  fixes xs :: "nat list"
  assumes "sorted_wrt (<) xs" "\<forall>x\<in>set xs. x < L" "se \<in> set (zip xs (tl xs @ [L]))"
  shows "fst se < snd se \<and> snd se \<le> L"
  using assms
proof (induction xs rule: induct_list012)
  case 1 then show ?case by simp
next
  case (2 x) then show ?case by simp
next
  case (3 x y zs)
  from "3.prems"(3) have "se = (x, y) \<or> se \<in> set (zip (y # zs) (tl (y # zs) @ [L]))" by simp
  then show ?case
  proof
    assume "se = (x, y)" with "3.prems" show ?thesis by auto
  next
    assume "se \<in> set (zip (y # zs) (tl (y # zs) @ [L]))"
    with "3.IH"(2) "3.prems" show ?thesis by simp
  qed
qed

lemma spans_last:
  fixes xs :: "nat list"
  shows "xs \<noteq> [] \<Longrightarrow> snd (last (zip xs (tl xs @ [L]))) = L"
  by (induction xs rule: induct_list012) simp_all

section \<open>Coverage of the text by the blocks\<close>

text \<open>
  Claim C1 fails as stated: the first block starts at the first header, so the text
  before it lies in no block.
\<close>

theorem block_spans_counterexample:
  "block_spans ''x\<newline>Pasal 1'' = [(2, 9)]
   \<and> spans_text ''x\<newline>Pasal 1'' (block_spans ''x\<newline>Pasal 1'') \<noteq> ''x\<newline>Pasal 1''"
  by code_simp

text \<open>
  Claim C1, amended.  When there is a block, the spans start at the offsets of the
  matched headers and tile the text from the start of the first header to the end of the
  document: their concatenation is that suffix of the text, the last span ends at the end
  of the document, each span ends where the next begins, and every span is non-empty and
  inside the text.
\<close>

theorem block_spans_tile_from_first_header:
  assumes "block_spans t \<noteq> []"
  shows "map fst (block_spans t) = map fst (pasal_matches t)
    \<and> spans_text t (block_spans t) = drop (fst (hd (block_spans t))) t
    \<and> snd (last (block_spans t)) = length t
    \<and> (\<forall>i. Suc i < length (block_spans t) \<longrightarrow> snd (block_spans t ! i) = fst (block_spans t ! Suc i))
    \<and> (\<forall>se\<in>set (block_spans t). fst se < snd se \<and> snd se \<le> length t)"
proof -
  let ?xs = "map fst (pasal_matches t)"
  have bs: "block_spans t = zip ?xs (tl ?xs @ [length t])" by (simp add: block_spans_def Let_def)
  have ne: "?xs \<noteq> []" using assms bs by auto
  have so: "sorted_wrt (<) ?xs" unfolding pasal_matches_def by (rule finditer_starts_sorted)
  have lt: "\<forall>x\<in>set ?xs. x < length t" using pasal_match_start by auto
  then have le: "\<forall>x\<in>set ?xs. x \<le> length t" by auto
  have len: "length (tl ?xs @ [length t]) = length ?xs" using ne by simp
  have 1: "map fst (block_spans t) = ?xs" unfolding bs using len by simp
  have "hd (map fst (block_spans t)) = fst (hd (block_spans t))" using assms by (rule hd_map)
  then have hdx: "fst (hd (block_spans t)) = hd ?xs" using 1 by simp
  have 2: "spans_text t (block_spans t) = drop (fst (hd (block_spans t))) t"
    unfolding spans_text_def hdx unfolding bs spans_concat[OF so ne le] by (simp add: slice_def)
  have 3: "snd (last (block_spans t)) = length t" unfolding bs using ne by (rule spans_last)
  have 4: "\<forall>i. Suc i < length (block_spans t) \<longrightarrow> snd (block_spans t ! i) = fst (block_spans t ! Suc i)"
    unfolding bs using spans_nth[of _ ?xs "length t"] len by simp
  have 5: "\<forall>se\<in>set (block_spans t). fst se < snd se \<and> snd se \<le> length t"
    unfolding bs using spans_ordered[OF so lt] by blast
  from 1 2 3 4 5 show ?thesis by blast
qed

theorem block_spans_tile_from_first_header_witness:
  "block_spans ''x\<newline>Pasal 1\<newline>isi\<newline>Pasal 2'' \<noteq> []
   \<and> spans_text ''x\<newline>Pasal 1\<newline>isi\<newline>Pasal 2'' (block_spans ''x\<newline>Pasal 1\<newline>isi\<newline>Pasal 2'')
       = drop (fst (hd (block_spans ''x\<newline>Pasal 1\<newline>isi\<newline>Pasal 2''))) ''x\<newline>Pasal 1\<newline>isi\<newline>Pasal 2''
   \<and> snd (last (block_spans ''x\<newline>Pasal 1\<newline>isi\<newline>Pasal 2'')) = length ''x\<newline>Pasal 1\<newline>isi\<newline>Pasal 2''"
proof -
  have ne: "block_spans ''x\<newline>Pasal 1\<newline>isi\<newline>Pasal 2'' \<noteq> []" by code_simp
  from block_spans_tile_from_first_header[OF ne] ne show ?thesis by blast
qed

section \<open>The scan for the nearest mark\<close>

lemma nearest_tag_from_filter:
  assumes "sorted_wrt (<) (map fst ms)"
  shows "nearest_tag_from prev idx ms =
     (case filter (\<lambda>pm. fst pm \<le> idx) ms of [] \<Rightarrow> prev | f # fs \<Rightarrow> Some (snd (last (f # fs))))"
  using assms
proof (induction ms arbitrary: prev)
  case Nil then show ?case by simp
next
  case (Cons pm ms)
  obtain p tg where pm: "pm = (p, tg)" by (cases pm)
  show ?case
  proof (cases "p \<le> idx")
    case True
    with Cons pm show ?thesis by (auto split: list.splits)
  next
    case False
    have "\<forall>qm\<in>set ms. p < fst qm" using Cons.prems pm by auto
    with False have "filter (\<lambda>pm. fst pm \<le> idx) ms = []" by (auto simp: filter_empty_conv)
    with False pm show ?thesis by simp
  qed
qed

lemma sorted_last_greatest:
  fixes fs :: "(nat \<times> 'a) list"
  assumes "sorted_wrt (<) (map fst fs)" "x \<in> set fs"
  shows "fst x \<le> fst (last fs)"
  using assms
proof (induction fs)
  case Nil then show ?case by simp
next
  case (Cons a fs)
  show ?case
  proof (cases "fs = []")
    case True with Cons.prems show ?thesis by simp
  next
    case False
    have la: "last fs \<in> set fs" using False by simp
    show ?thesis
    proof (cases "x = a")
      case True
      have "fst a < fst (last fs)" using Cons.prems(1) la by auto
      with True False show ?thesis by simp
    next
      case False
      with Cons have "fst x \<le> fst (last fs)" by auto
      with \<open>fs \<noteq> []\<close> show ?thesis by simp
    qed
  qed
qed

lemma nearest_tag_correct:
  assumes "sorted_wrt (<) (map fst ms)"
  shows "nearest_at_or_before idx ms (nearest_tag idx ms)"
proof -
  let ?fs = "filter (\<lambda>pm. fst pm \<le> idx) ms"
  have nt: "nearest_tag idx ms = (case ?fs of [] \<Rightarrow> None | f # fs \<Rightarrow> Some (snd (last (f # fs))))"
    unfolding nearest_tag_def by (rule nearest_tag_from_filter[OF assms])
  show ?thesis
  proof (cases ?fs)
    case Nil
    then have "\<forall>qm\<in>set ms. idx < fst qm" by (auto simp: filter_empty_conv)
    with Nil nt show ?thesis by (simp add: nearest_at_or_before_def)
  next
    case (Cons f fs)
    let ?l = "last ?fs"
    have lin: "?l \<in> set ?fs" using Cons by simp
    then have l1: "?l \<in> set ms" "fst ?l \<le> idx" by auto
    have so: "sorted_wrt (<) (map fst ?fs)"
      using assms by (simp add: sorted_wrt_map sorted_wrt_filter)
    have gr: "\<forall>qm\<in>set ms. fst qm \<le> idx \<longrightarrow> fst qm \<le> fst ?l"
      using sorted_last_greatest[OF so] by auto
    have "nearest_tag idx ms = Some (snd ?l)" using nt Cons by simp
    moreover have "(fst ?l, snd ?l) \<in> set ms" using l1 by simp
    ultimately show ?thesis using l1(2) gr unfolding nearest_at_or_before_def
      by (simp only: option.case) (intro exI[of _ "fst ?l"] conjI)
  qed
qed

lemma line_starts_sorted:
  "sorted_wrt (<) (line_starts pos lns) \<and> (\<forall>p\<in>set (line_starts pos lns). pos \<le> p)"
proof (induction lns arbitrary: pos)
  case Nil then show ?case by simp
next
  case (Cons ln lns)
  from Cons[of "pos + length ln + 1"] show ?case by auto
qed

lemma length_line_starts [simp]: "length (line_starts pos lns) = length lns"
  by (induction lns arbitrary: pos) simp_all

lemma marks_offsets:
  "map fst (marks kind re lns) =
     map fst (filter (\<lambda>pl. rx_match re (True, snd pl) \<noteq> None) (zip (line_starts 0 lns) lns))"
proof -
  have "map fst (concat (map (mark_of_line kind re) xs)) =
     map fst (filter (\<lambda>pl. rx_match re (True, snd pl) \<noteq> None) xs)" for xs
    by (induction xs) (auto simp: mark_of_line_def split: option.splits)
  then show ?thesis by (simp add: marks_def)
qed

lemma marks_sorted: "sorted_wrt (<) (map fst (marks kind re lns))"
proof -
  have "sorted_wrt (<) (map fst (zip (line_starts 0 lns) lns))"
    using line_starts_sorted[of 0 lns] by simp
  then have "sorted_wrt (\<lambda>x y. fst x < fst y) (zip (line_starts 0 lns) lns)"
    by (simp only: sorted_wrt_map)
  then have "sorted_wrt (\<lambda>x y. fst x < fst y)
      (filter (\<lambda>pl. rx_match re (True, snd pl) \<noteq> None) (zip (line_starts 0 lns) lns))"
    by (rule sorted_wrt_filter)
  then show ?thesis
    unfolding marks_offsets by (simp only: sorted_wrt_map)
qed

lemma length_block_spans [simp]: "length (block_spans t) = length (pasal_matches t)"
  by (cases "pasal_matches t") (simp_all add: block_spans_def Let_def)

lemma length_detect_structure [simp]: "length (detect_structure t) = length (pasal_matches t)"
  by (simp add: detect_structure_def Let_def)

lemma map_fst_block_spans: "map fst (block_spans t) = map fst (pasal_matches t)"
  by (cases "pasal_matches t") (simp_all add: block_spans_def Let_def)

lemma fst_block_spans_nth:
  assumes "i < length (pasal_matches t)"
  shows "fst (block_spans t ! i) = fst (pasal_matches t ! i)"
proof -
  have "fst (block_spans t ! i) = map fst (block_spans t) ! i" using assms by simp
  also have "\<dots> = map fst (pasal_matches t) ! i" by (simp only: map_fst_block_spans)
  also have "\<dots> = fst (pasal_matches t ! i)" using assms by simp
  finally show ?thesis .
qed

section \<open>The substitutions are what the matcher computes\<close>

declare rx_sub.simps [simp del]

lemma rx_sub_None:
  "rx_match rs (b, c # cs) = None \<Longrightarrow> rx_sub rs rep (b, c # cs) = c # rx_sub rs rep (c = NL, cs)"
  by (subst rx_sub.simps) simp

lemma rx_sub_None_Nil: "rx_match rs (b, []) = None \<Longrightarrow> rx_sub rs rep (b, []) = []"
  by (subst rx_sub.simps) simp

lemma rx_sub_Some:
  "rx_match rs cur = Some m \<Longrightarrow> length (snd (m_end cur m)) < length (snd cur) \<Longrightarrow>
     rx_sub rs rep cur = rep @ rx_sub rs rep (m_end cur m)"
  by (subst rx_sub.simps) simp

lemma ends_parts_single: "ends_parts [r] cur = map (\<lambda>c. [c]) (ends r cur)"
  by (simp add: map_concat o_def concat_map_singleton)

lemma rev_upt_Suc: "k \<le> n \<Longrightarrow> rev [k..<Suc n] = n # rev [k..<n]"
  by simp

lemma ends_Rep_first:
  "ends (Rep P k) cur =
     (if k \<le> length (takeWhile P (snd cur))
      then skip (length (takeWhile P (snd cur))) cur
           # map (\<lambda>j. skip j cur) (rev [k..<length (takeWhile P (snd cur))])
      else [])"
  by simp

lemma drop_takeWhile_len: "drop (length (takeWhile P s)) s = dropWhile P s"
  by (simp add: dropWhile_eq_drop)

lemma rx_match_Rep:
  "rx_match [Rep P k] cur =
     (if k \<le> length (takeWhile P (snd cur))
      then Some [skip (length (takeWhile P (snd cur))) cur] else None)"
  unfolding rx_match_def ends_parts_single ends_Rep_first by simp

lemma rx_sub_Rep:
  assumes "0 < k"
  shows "rx_sub [Rep P k] rep (b, s) = collapse_runs P k rep s"
proof (induction s arbitrary: b rule: length_induct)
  case (1 s)
  show ?case
  proof (cases s)
    case Nil
    with assms show ?thesis
      by (simp add: rx_sub.simps[of _ _ "(b, [])"] rx_match_Rep)
  next
    case (Cons c cs)
    let ?n = "length (takeWhile P s)"
    show ?thesis
    proof (cases "k \<le> ?n")
      case True
      with assms have n0: "0 < ?n" by linarith
      then have pc: "P c" using Cons by (auto split: if_splits)
      have e: "m_end (b, s) [skip ?n (b, s)] = skip ?n (b, s)" by (simp add: m_end_def)
      have dw: "drop ?n s = dropWhile P cs" using pc Cons by (simp add: drop_takeWhile_len)
      have lt: "length (dropWhile P cs) < length s"
        using Cons length_dropWhile_le[of P cs] by simp
      have "rx_sub [Rep P k] rep (b, s) = rep @ rx_sub [Rep P k] rep (skip ?n (b, s))"
        using True lt dw by (simp add: rx_sub.simps[of _ _ "(b, s)"] rx_match_Rep e)
      also have "skip ?n (b, s) = (fst (skip ?n (b, s)), dropWhile P cs)"
        using dw by (metis prod.collapse snd_skip snd_conv)
      also have "rx_sub [Rep P k] rep (fst (skip ?n (b, s)), dropWhile P cs)
          = collapse_runs P k rep (dropWhile P cs)"
        using 1 lt by blast
      finally show ?thesis using True pc Cons by simp
    next
      case False
      have "rx_match [Rep P k] (b, c # cs) = None"
        using False Cons by (simp add: rx_match_Rep)
      then have "rx_sub [Rep P k] rep (b, s) = c # rx_sub [Rep P k] rep (c = NL, cs)"
        unfolding Cons by (rule rx_sub_None)
      also have "rx_sub [Rep P k] rep (c = NL, cs) = collapse_runs P k rep cs"
        using 1 Cons by simp
      finally show ?thesis using False Cons by simp
    qed
  qed
qed

lemma rx_match_hyphen:
  "rx_match hyphen_rx (b, s) =
     (case s of c # d # cs \<Rightarrow>
        if c = CHR ''-'' \<and> d = NL
        then Some [skip (length (takeWhile is_space cs)) (True, cs)] else None
      | _ \<Rightarrow> None)"
proof (cases s)
  case Nil then show ?thesis by (simp add: rx_match_def hyphen_rx_def)
next
  case (Cons c s')
  show ?thesis
  proof (cases s')
    case Nil with Cons show ?thesis by (simp add: rx_match_def hyphen_rx_def)
  next
    case (Cons d cs)
    with \<open>s = c # s'\<close> show ?thesis
      unfolding rx_match_def hyphen_rx_def ends_parts_single
      by (simp del: ends.simps(5) add: ends_Rep_first)
  qed
qed

lemma rx_sub_hyphen: "rx_sub hyphen_rx [] (b, s) = hyphen_join s"
proof (induction s arbitrary: b rule: length_induct)
  case (1 s)
  show ?case
  proof (cases "\<exists>cs. s = CHR ''-'' # NL # cs")
    case True
    then obtain cs where s: "s = CHR ''-'' # NL # cs" by blast
    let ?n = "length (takeWhile is_space cs)"
    have lt: "length (dropWhile is_space cs) < length s"
      using s length_dropWhile_le[of is_space cs] by simp
    have sk: "snd (skip ?n (True, cs)) = dropWhile is_space cs" by (simp add: drop_takeWhile_len)
    have "rx_sub hyphen_rx [] (b, CHR ''-'' # NL # cs) = rx_sub hyphen_rx [] (skip ?n (True, cs))"
      using lt[unfolded s] sk
      by (simp add: rx_sub.simps[of _ _ "(b, CHR ''-'' # NL # cs)"] rx_match_hyphen m_end_def)
    then have "rx_sub hyphen_rx [] (b, s) = rx_sub hyphen_rx [] (skip ?n (True, cs))"
      using s by simp
    also have "skip ?n (True, cs) = (fst (skip ?n (True, cs)), dropWhile is_space cs)"
      using sk by (metis prod.collapse)
    also have "rx_sub hyphen_rx [] (fst (skip ?n (True, cs)), dropWhile is_space cs)
        = hyphen_join (dropWhile is_space cs)"
      using 1 lt by blast
    finally show ?thesis using s by simp
  next
    case False
    show ?thesis
    proof (cases s)
      case Nil
      then show ?thesis by (simp add: rx_sub.simps[of _ _ "(b, [])"] rx_match_hyphen)
    next
      case (Cons c s')
      have nm: "rx_match hyphen_rx (b, s) = None"
        using False Cons by (auto simp: rx_match_hyphen split: list.splits)
      have "rx_sub hyphen_rx [] (b, s) = c # rx_sub hyphen_rx [] (c = NL, s')"
        using nm unfolding Cons by (rule rx_sub_None)
      also have "rx_sub hyphen_rx [] (c = NL, s') = hyphen_join s'" using 1 Cons by simp
      finally show ?thesis using False Cons by (cases s') auto
    qed
  qed
qed

lemma minimal_clean_direct:
  "minimal_clean nfkc t =
     strip (collapse_runs is_hspace 2 '' ''
       (collapse_runs (\<lambda>c. c = NL) 4 [NL, NL]
         (join_nl (map rstrip (splitlines (hyphen_join (nfkc (filter (\<lambda>c. c \<noteq> CHR 0x00) t))))))))"
  by (simp add: minimal_clean_def Let_def rx_sub_hyphen rx_sub_Rep)

lemma is_space_NL [simp]: "is_space NL" by (simp add: is_space_def NL_def)

lemma not_space_hyphen [simp]: "\<not> is_space (CHR ''-'')" by (simp add: is_space_def)




section \<open>Hyphenation rejoin\<close>



section \<open>Adjacent pairs, runs, and the collapsing substitution\<close>

lemma no_pair_Cons:
  "no_pair R (c # s) \<longleftrightarrow> (s = [] \<or> \<not> R c (hd s)) \<and> no_pair R s"
  by (cases s) auto

lemma no_pair_append:
  "no_pair R (a @ b) \<longleftrightarrow> no_pair R a \<and> no_pair R b \<and> (a = [] \<or> b = [] \<or> \<not> R (last a) (hd b))"
proof (induction a rule: induct_list012)
  case 1 show ?case by simp
next
  case (2 x) show ?case by (cases b) auto
next
  case (3 x y zs) then show ?case by auto
qed

lemma no_pair_drop: "no_pair R s \<Longrightarrow> no_pair R (drop n s)"
  using no_pair_append[of R "take n s" "drop n s"] by simp

lemma no_pair_take: "no_pair R s \<Longrightarrow> no_pair R (take n s)"
  using no_pair_append[of R "take n s" "drop n s"] by simp

lemma no_pair_dropWhile: "no_pair R s \<Longrightarrow> no_pair R (dropWhile P s)"
  using no_pair_append[of R "takeWhile P s" "dropWhile P s"] by simp

lemma runs_below_dropWhile: "runs_below P k s \<Longrightarrow> runs_below P k (dropWhile Q s)"
  by (induction s) auto

lemma runs_below_drop: "runs_below P k s \<Longrightarrow> runs_below P k (drop n s)"
  by (induction s arbitrary: n) (auto simp: drop_Cons split: nat.splits)

lemma length_takeWhile_take: "length (takeWhile P (take n s)) \<le> length (takeWhile P s)"
proof (induction s arbitrary: n)
  case Nil show ?case by simp
next
  case (Cons c cs) then show ?case by (cases n) auto
qed

lemma runs_below_take: "runs_below P k s \<Longrightarrow> runs_below P k (take n s)"
proof (induction s arbitrary: n)
  case Nil show ?case by simp
next
  case (Cons c cs)
  show ?case
  proof (cases n)
    case 0 then show ?thesis by simp
  next
    case (Suc m)
    have "length (takeWhile P (take n (c # cs))) \<le> length (takeWhile P (c # cs))"
      by (rule length_takeWhile_take)
    with Cons Suc show ?thesis by auto
  qed
qed


lemma collapse_runs_match:
  "P c \<Longrightarrow> k \<le> Suc (length (takeWhile P cs)) \<Longrightarrow>
     collapse_runs P k rep (c # cs) = rep @ collapse_runs P k rep (dropWhile P cs)"
  by simp

lemma collapse_runs_skip:
  "\<not> (P c \<and> k \<le> Suc (length (takeWhile P cs))) \<Longrightarrow>
     collapse_runs P k rep (c # cs) = c # collapse_runs P k rep cs"
  by auto

lemma collapse_runs_Nil_iff:
  "rep \<noteq> [] \<Longrightarrow> collapse_runs P k rep s = [] \<longleftrightarrow> s = []"
  by (cases s) auto

lemma collapse_runs_hd_notP:
  "s = [] \<or> \<not> P (hd s) \<Longrightarrow> 0 < k \<Longrightarrow>
     collapse_runs P k rep s = [] \<and> s = [] \<or> (collapse_runs P k rep s \<noteq> [] \<and> hd (collapse_runs P k rep s) = hd s)"
  by (cases s) auto

text \<open>Runs shorter than \<open>k\<close> are left alone.\<close>

lemma collapse_runs_id: "runs_below P k s \<Longrightarrow> collapse_runs P k rep s = s"
  by (induction s) auto

lemma takeWhile_collapse_short:
  "length (takeWhile P s) < k \<Longrightarrow> takeWhile P (collapse_runs P k rep s) = takeWhile P s"
proof (induction s)
  case Nil show ?case by simp
next
  case (Cons c cs) then show ?case by (cases "P c") auto
qed

lemma runs_below_append_run:
  assumes "\<forall>c\<in>set a. P c" "length a < k" "b = [] \<or> \<not> P (hd b)" "runs_below P k b"
  shows "runs_below P k (a @ b)"
  using assms
proof (induction a)
  case Nil then show ?case by simp
next
  case (Cons x a)
  have tw: "takeWhile P ((x # a) @ b) = x # a"
    using Cons.prems by (cases b) (auto simp: takeWhile_append2 takeWhile_eq_all_conv)
  have "runs_below P k (a @ b)" using Cons by auto
  with tw Cons.prems(2) show ?case by (simp del: takeWhile.simps)
qed

text \<open>After collapsing, no run of length \<open>k\<close> or more is left.\<close>

lemma runs_below_collapse:
  assumes "\<forall>c\<in>set rep. P c" "length rep < k"
  shows "runs_below P k (collapse_runs P k rep s)"
proof (induction s rule: length_induct)
  case (1 s)
  show ?case
  proof (cases s)
    case Nil then show ?thesis by simp
  next
    case (Cons c cs)
    have k0: "0 < k" using assms(2) by simp
    show ?thesis
    proof (cases "P c \<and> k \<le> Suc (length (takeWhile P cs))")
      case True
      let ?r = "dropWhile P cs"
      have g: "collapse_runs P k rep s = rep @ collapse_runs P k rep ?r"
        unfolding Cons using True by (intro collapse_runs_match) simp_all
      have "length ?r < length s" using Cons length_dropWhile_le[of P cs] by simp
      with 1 have ih: "runs_below P k (collapse_runs P k rep ?r)" by blast
      have nr: "?r = [] \<or> \<not> P (hd ?r)" using hd_dropWhile[of P cs] by blast
      have "collapse_runs P k rep ?r = [] \<or> \<not> P (hd (collapse_runs P k rep ?r))"
      proof (cases "?r = []")
        case True then show ?thesis by (simp del: dropWhile_eq_Nil_conv)
      next
        case False
        with nr have "\<not> P (hd ?r)" by blast
        moreover from collapse_runs_hd_notP[of ?r P k rep] nr k0 False
        have "hd (collapse_runs P k rep ?r) = hd ?r" by blast
        ultimately show ?thesis by simp
      qed
      with assms ih show ?thesis unfolding g by (intro runs_below_append_run)
    next
      case False
      have g: "collapse_runs P k rep s = c # collapse_runs P k rep cs"
        unfolding Cons using False by (rule collapse_runs_skip)
      have ih: "runs_below P k (collapse_runs P k rep cs)" using 1 Cons by simp
      have "length (takeWhile P (c # collapse_runs P k rep cs)) < k"
      proof (cases "P c")
        case True
        with False have lt: "Suc (length (takeWhile P cs)) < k" by simp
        then have "takeWhile P (collapse_runs P k rep cs) = takeWhile P cs"
          by (intro takeWhile_collapse_short) simp
        with True lt show ?thesis by simp
      next
        case False with k0 show ?thesis by simp
      qed
      with ih show ?thesis unfolding g by (simp del: takeWhile.simps)
    qed
  qed
qed

lemma takeWhile_other_collapse:
  assumes "\<forall>c. P c \<longrightarrow> \<not> P' c" "rep \<noteq> []" "\<not> P' (hd rep)"
  shows "takeWhile P' (collapse_runs P k rep s) = takeWhile P' s"
proof (induction s)
  case Nil show ?case by simp
next
  case (Cons c cs)
  show ?case
  proof (cases "P c \<and> k \<le> Suc (length (takeWhile P cs))")
    case True
    with assms(1) have "\<not> P' c" by blast
    moreover have "takeWhile P' (rep @ x) = []" for x using assms(2,3) by (cases rep) auto
    ultimately show ?thesis using True by simp
  next
    case False with Cons show ?thesis by auto
  qed
qed

lemma runs_below_prepend_other:
  assumes "\<forall>c\<in>set a. \<not> P c" "0 < k" "runs_below P k b"
  shows "runs_below P k (a @ b)"
  using assms by (induction a) auto

lemma runs_below_other_collapse:
  assumes "\<forall>c. P c \<longrightarrow> \<not> P' c" "rep \<noteq> []" "\<forall>c\<in>set rep. \<not> P' c" "0 < k'"
    and "runs_below P' k' s"
  shows "runs_below P' k' (collapse_runs P k rep s)"
  using assms(5)
proof (induction s rule: length_induct)
  case (1 s)
  have hr: "\<not> P' (hd rep)" using assms(2,3) by (cases rep) auto
  show ?case
  proof (cases s)
    case Nil then show ?thesis by simp
  next
    case (Cons c cs)
    have rcs: "runs_below P' k' cs" using "1.prems" Cons by simp
    show ?thesis
    proof (cases "P c \<and> k \<le> Suc (length (takeWhile P cs))")
      case True
      let ?r = "dropWhile P cs"
      have g: "collapse_runs P k rep s = rep @ collapse_runs P k rep ?r"
        unfolding Cons using True by (intro collapse_runs_match) simp_all
      have "length ?r < length s" using Cons length_dropWhile_le[of P cs] by simp
      moreover have "runs_below P' k' ?r" using rcs by (rule runs_below_dropWhile)
      ultimately have "runs_below P' k' (collapse_runs P k rep ?r)" using 1 by blast
      with assms(3,4) show ?thesis unfolding g by (intro runs_below_prepend_other)
    next
      case False
      have g: "collapse_runs P k rep s = c # collapse_runs P k rep cs"
        unfolding Cons using False by (rule collapse_runs_skip)
      have ih: "runs_below P' k' (collapse_runs P k rep cs)" using 1 Cons rcs by simp
      have "takeWhile P' (collapse_runs P k rep s) = takeWhile P' s"
        using assms(1,2) hr by (rule takeWhile_other_collapse)
      moreover have "length (takeWhile P' s) < k'" using "1.prems" Cons by simp
      ultimately have "length (takeWhile P' (c # collapse_runs P k rep cs)) < k'"
        unfolding g by simp
      with ih show ?thesis unfolding g by (simp del: takeWhile.simps)
    qed
  qed
qed

lemma set_collapse_runs: "set (collapse_runs P k rep s) \<subseteq> set s \<union> set rep"
proof (induction s rule: length_induct)
  case (1 s)
  show ?case
  proof (cases s)
    case Nil then show ?thesis by simp
  next
    case (Cons c cs)
    show ?thesis
    proof (cases "P c \<and> k \<le> Suc (length (takeWhile P cs))")
      case True
      have "length (dropWhile P cs) < length s" using Cons length_dropWhile_le[of P cs] by simp
      with 1 have "set (collapse_runs P k rep (dropWhile P cs)) \<subseteq> set (dropWhile P cs) \<union> set rep"
        by blast
      moreover have "set (dropWhile P cs) \<subseteq> set cs" by (auto dest: set_dropWhileD)
      moreover have "collapse_runs P k rep s = rep @ collapse_runs P k rep (dropWhile P cs)"
        unfolding Cons using True by (intro collapse_runs_match) simp_all
      ultimately show ?thesis using Cons by auto
    next
      case False
      have "collapse_runs P k rep s = c # collapse_runs P k rep cs"
        unfolding Cons using False by (rule collapse_runs_skip)
      moreover have "set (collapse_runs P k rep cs) \<subseteq> set cs \<union> set rep" using 1 Cons by simp
      ultimately show ?thesis using Cons by auto
    qed
  qed
qed

lemma collapse_runs_hd:
  assumes "rep \<noteq> []"
  shows "hd (collapse_runs P k rep (c # cs)) =
           (if P c \<and> k \<le> Suc (length (takeWhile P cs)) then hd rep else c)"
  using assms by auto

lemma no_pair_collapse:
  assumes "0 < k" "rep \<noteq> []" "no_pair R rep"
    and ii: "\<And>p y. P p \<Longrightarrow> \<not> P y \<Longrightarrow> \<not> R p y \<Longrightarrow> \<not> R (last rep) y"
    and iii: "\<And>c p. P p \<Longrightarrow> \<not> R c p \<Longrightarrow> \<not> R c (hd rep)"
    and "no_pair R s"
  shows "no_pair R (collapse_runs P k rep s)"
  using assms(6)
proof (induction s rule: length_induct)
  case (1 s)
  show ?case
  proof (cases s)
    case Nil then show ?thesis by simp
  next
    case (Cons c cs)
    have ncs: "no_pair R cs" using "1.prems" Cons by (simp add: no_pair_Cons)
    show ?thesis
    proof (cases "P c \<and> k \<le> Suc (length (takeWhile P cs))")
      case True
      let ?r = "dropWhile P cs"
      let ?a = "c # takeWhile P cs"
      have g: "collapse_runs P k rep s = rep @ collapse_runs P k rep ?r"
        unfolding Cons using True by (intro collapse_runs_match) simp_all
      have "length ?r < length s" using Cons length_dropWhile_le[of P cs] by simp
      moreover have "no_pair R ?r" using ncs by (rule no_pair_dropWhile)
      ultimately have ih: "no_pair R (collapse_runs P k rep ?r)" using 1 by blast
      have junction: "collapse_runs P k rep ?r = [] \<or> \<not> R (last rep) (hd (collapse_runs P k rep ?r))"
      proof (cases "?r = []")
        case True then show ?thesis by (simp del: dropWhile_eq_Nil_conv)
      next
        case False
        have np: "\<not> P (hd ?r)" using False by (rule hd_dropWhile)
        have "hd (collapse_runs P k rep ?r) = hd ?r"
          using collapse_runs_hd_notP[of ?r P k rep] np assms(1) False by blast
        moreover have "s = ?a @ ?r" using Cons by simp
        then have "no_pair R (?a @ ?r)" using "1.prems" by simp
        then have "\<not> R (last ?a) (hd ?r)" using False by (simp only: no_pair_append) simp
        moreover have "P (last ?a)" using True by (auto dest: set_takeWhileD last_in_set)
        ultimately show ?thesis using ii[of "last ?a" "hd ?r"] np by simp
      qed
      show ?thesis unfolding g using assms(2,3) ih junction by (simp only: no_pair_append) simp
    next
      case False
      have g: "collapse_runs P k rep s = c # collapse_runs P k rep cs"
        unfolding Cons using False by (rule collapse_runs_skip)
      have ih: "no_pair R (collapse_runs P k rep cs)" using 1 Cons ncs by simp
      have "collapse_runs P k rep cs = [] \<or> \<not> R c (hd (collapse_runs P k rep cs))"
      proof (cases cs)
        case Nil then show ?thesis by simp
      next
        case (Cons d ds)
        have cd: "\<not> R c d" using "1.prems" \<open>s = c # cs\<close> Cons by simp
        show ?thesis
        proof (cases "P d \<and> k \<le> Suc (length (takeWhile P ds))")
          case True
          then have "\<not> R c (hd rep)" using iii cd by blast
          moreover have "hd (collapse_runs P k rep (d # ds)) =
              (if P d \<and> k \<le> Suc (length (takeWhile P ds)) then hd rep else d)"
            by (rule collapse_runs_hd[OF assms(2)])
          then have "hd (collapse_runs P k rep (d # ds)) = hd rep"
            using True by (simp del: collapse_runs.simps)
          ultimately show ?thesis unfolding Cons by simp
        next
          case False
          have "hd (collapse_runs P k rep (d # ds)) =
              (if P d \<and> k \<le> Suc (length (takeWhile P ds)) then hd rep else d)"
            by (rule collapse_runs_hd[OF assms(2)])
          then have "hd (collapse_runs P k rep (d # ds)) = d"
            using False by (simp del: collapse_runs.simps)
          with cd show ?thesis unfolding Cons by simp
        qed
      qed
      with ih show ?thesis unfolding g by (simp add: no_pair_Cons)
    qed
  qed
qed


lemma rstrip_prefix: "rstrip s = take (length (rstrip s)) s"
proof -
  have "rev s = takeWhile is_space (rev s) @ dropWhile is_space (rev s)" by simp
  then have "s = rev (dropWhile is_space (rev s)) @ rev (takeWhile is_space (rev s))"
    by (metis rev_append rev_rev_ident)
  then have "s = rstrip s @ rev (takeWhile is_space (rev s))" by (simp add: rstrip_def)
  then show ?thesis by (metis append_eq_conv_conj)
qed

lemma rstrip_last: "rstrip s = [] \<or> \<not> is_space (last (rstrip s))"
proof (cases "dropWhile is_space (rev s) = []")
  case True then show ?thesis by (simp add: rstrip_def del: dropWhile_eq_Nil_conv)
next
  case False
  then have "\<not> is_space (hd (dropWhile is_space (rev s)))" by (rule hd_dropWhile)
  with False show ?thesis by (simp add: rstrip_def last_rev del: dropWhile_eq_Nil_conv)
qed

lemma rstrip_id: "s = [] \<or> \<not> is_space (last s) \<Longrightarrow> rstrip s = s"
  by (cases "rev s") (auto simp: rstrip_def)

lemma set_rstrip: "set (rstrip s) \<subseteq> set s"
  by (metis rstrip_prefix set_take_subset)

lemma strip_ends:
  "strip s = [] \<or> (\<not> is_space (hd (strip s)) \<and> \<not> is_space (last (strip s)))"
proof (cases "strip s = []")
  case True then show ?thesis by simp
next
  case False
  let ?l = "dropWhile is_space s"
  have st: "strip s = rstrip ?l" by (simp add: strip_def lstrip_def)
  have ne: "?l \<noteq> []"
  proof
    assume "?l = []"
    then have "rstrip ?l = []" by (simp add: rstrip_def del: dropWhile_eq_Nil_conv)
    with False st show False by simp
  qed
  then have "\<not> is_space (hd ?l)" by (rule hd_dropWhile)
  moreover have "rstrip ?l = take (length (rstrip ?l)) ?l" by (rule rstrip_prefix)
  then have "hd (rstrip ?l) = hd ?l" using False st by (metis hd_take length_greater_0_conv)
  moreover have "\<not> is_space (last (rstrip ?l))" using rstrip_last[of ?l] False st by simp
  ultimately show ?thesis using st by simp
qed

lemma strip_id:
  assumes "s = [] \<or> (\<not> is_space (hd s) \<and> \<not> is_space (last s))"
  shows "strip s = s"
proof (cases s)
  case Nil then show ?thesis by (simp add: strip_def lstrip_def rstrip_def)
next
  case (Cons c cs)
  with assms have "dropWhile is_space s = s" by simp
  moreover have "rstrip s = s" using assms by (intro rstrip_id) auto
  ultimately show ?thesis by (simp add: strip_def lstrip_def)
qed

lemma strip_sub: "\<exists>i n. strip s = take n (drop i s)"
proof -
  have "lstrip s = drop (length (takeWhile is_space s)) s"
    by (simp add: lstrip_def dropWhile_eq_drop)
  moreover have "strip s = take (length (rstrip (lstrip s))) (lstrip s)"
    unfolding strip_def by (rule rstrip_prefix)
  ultimately show ?thesis by metis
qed

lemma no_pair_strip:
  assumes "no_pair R s"
  shows "no_pair R (strip s)"
proof -
  obtain i n where e: "strip s = take n (drop i s)" using strip_sub by blast
  have "no_pair R (drop i s)" using assms by (rule no_pair_drop)
  then have "no_pair R (take n (drop i s))" by (rule no_pair_take)
  with e show ?thesis by simp
qed

lemma runs_below_strip:
  assumes "runs_below P k s"
  shows "runs_below P k (strip s)"
proof -
  obtain i n where e: "strip s = take n (drop i s)" using strip_sub by blast
  have "runs_below P k (drop i s)" using assms by (rule runs_below_drop)
  then have "runs_below P k (take n (drop i s))" by (rule runs_below_take)
  with e show ?thesis by simp
qed

lemma set_strip: "set (strip s) \<subseteq> set s"
proof -
  obtain i n where "strip s = take n (drop i s)" using strip_sub by blast
  then show ?thesis by (metis set_take_subset set_drop_subset subset_trans)
qed

section \<open>Lines\<close>

lemma linebreak_space: "is_linebreak c \<Longrightarrow> is_space c"
  by (auto simp: is_linebreak_def is_space_def)

lemma is_linebreak_NL [simp]: "is_linebreak NL" by (simp add: is_linebreak_def NL_def)

lemma is_linebreak_CR [simp]: "is_linebreak CR" by (simp add: is_linebreak_def CR_def)

lemma CR_neq_NL [simp]: "CR \<noteq> NL" "NL \<noteq> CR" by (simp_all add: CR_def NL_def)

lemma splitlines_Nil_iff [simp]: "splitlines s = [] \<longleftrightarrow> s = []"
  by (induction s rule: splitlines.induct) (auto split: list.splits)

lemma hd_splitlines:
  "splitlines (d # cs) = l # ls \<Longrightarrow> (l = [] \<longleftrightarrow> is_linebreak d)"
  by (cases cs) (auto split: if_splits list.splits)

lemma splitlines_no_linebreak:
  "l \<in> set (splitlines s) \<Longrightarrow> c \<in> set l \<Longrightarrow> \<not> is_linebreak c"
proof (induction s arbitrary: l rule: splitlines.induct)
  case 1 then show ?case by simp
next
  case (2 c') then show ?case by (auto split: if_splits)
next
  case (3 c' d cs)
  show ?case
  proof (cases "c' = CR \<and> d = NL")
    case True with 3 show ?thesis by auto
  next
    case n1: False
    show ?thesis
    proof (cases "is_linebreak c'")
      case True with n1 3 show ?thesis by auto
    next
      case False
      obtain l' ls where sp: "splitlines (d # cs) = l' # ls"
        by (cases "splitlines (d # cs)") auto
      with n1 False "3.prems" have "l = c' # l' \<or> l \<in> set ls" by auto
      then show ?thesis
      proof
        assume "l = c' # l'"
        with "3.prems"(2) have "c = c' \<or> c \<in> set l'" by auto
        then show ?thesis using False "3.IH"(3)[OF n1 False, of l'] sp by auto
      next
        assume "l \<in> set ls"
        then show ?thesis using "3.IH"(3)[OF n1 False, of l] sp "3.prems"(2) by auto
      qed
    qed
  qed
qed

lemma join_nl_Cons: "ls \<noteq> [] \<Longrightarrow> join_nl (l # ls) = l @ NL # join_nl ls"
  by (cases ls) auto

lemma join_nl_Cons_Cons: "join_nl ((c # l) # ls) = c # join_nl (l # ls)"
  by (cases ls) auto

lemma join_splitlines:
  assumes "only_nl s" "s = [] \<or> \<not> is_linebreak (last s)"
  shows "join_nl (splitlines s) = s"
  using assms
proof (induction s rule: splitlines.induct)
  case 1 show ?case by simp
next
  case (2 c) then show ?case by simp
next
  case (3 c d cs)
  have tl: "only_nl (d # cs)" "d # cs = [] \<or> \<not> is_linebreak (last (d # cs))"
    using "3.prems" by (auto simp: only_nl_def)
  have n1: "\<not> (c = CR \<and> d = NL)" using "3.prems"(1) by (auto simp: only_nl_def)
  show ?case
  proof (cases "is_linebreak c")
    case True
    then have c: "c = NL" using "3.prems"(1) by (simp add: only_nl_def)
    have ih: "join_nl (splitlines (d # cs)) = d # cs" using "3.IH"(2)[OF n1 True tl] .
    have ne: "splitlines (d # cs) \<noteq> []" by simp
    have "splitlines (c # d # cs) = [] # splitlines (d # cs)" using n1 True by auto
    moreover have "join_nl ([] # splitlines (d # cs)) = [] @ NL # join_nl (splitlines (d # cs))"
      using ne by (rule join_nl_Cons)
    ultimately have "join_nl (splitlines (c # d # cs)) = [] @ NL # join_nl (splitlines (d # cs))"
      by (simp only:)
    with ih c show ?thesis by simp
  next
    case False
    obtain l ls where sp: "splitlines (d # cs) = l # ls"
      by (cases "splitlines (d # cs)") auto
    have "join_nl (l # ls) = d # cs" using "3.IH"(3)[OF n1 False tl] sp by simp
    moreover have "c \<noteq> CR" using False by auto
    ultimately show ?thesis using False sp by (simp add: join_nl_Cons_Cons)
  qed
qed

lemma lines_rstripped:
  assumes "no_pair space_before_nl s" "only_nl s" "s = [] \<or> \<not> is_space (last s)"
    and "l \<in> set (splitlines s)"
  shows "l = [] \<or> \<not> is_space (last l)"
  using assms
proof (induction s arbitrary: l rule: splitlines.induct)
  case 1 then show ?case by simp
next
  case (2 c) then show ?case by (auto split: if_splits)
next
  case (3 c d cs)
  have tl: "no_pair space_before_nl (d # cs)" "only_nl (d # cs)"
    "d # cs = [] \<or> \<not> is_space (last (d # cs))"
    using "3.prems" by (auto simp: only_nl_def)
  have n1: "\<not> (c = CR \<and> d = NL)" using "3.prems"(2) by (auto simp: only_nl_def)
  show ?case
  proof (cases "is_linebreak c")
    case True
    with n1 "3.prems"(4) have "l = [] \<or> l \<in> set (splitlines (d # cs))" by auto
    then show ?thesis using "3.IH"(2)[OF n1 True tl] by blast
  next
    case False
    obtain l' ls where sp: "splitlines (d # cs) = l' # ls"
      by (cases "splitlines (d # cs)") auto
    with n1 False "3.prems"(4) have "l = c # l' \<or> l \<in> set ls" by auto
    then show ?thesis
    proof
      assume l: "l = c # l'"
      show ?thesis
      proof (cases "l' = []")
        case True
        then have "is_linebreak d" using hd_splitlines[OF sp] by simp
        then have "d = NL" using "3.prems"(2) by (simp add: only_nl_def)
        then have "\<not> space_before_nl c NL" using "3.prems"(1) by simp
        moreover have "c \<noteq> NL" using False by auto
        ultimately have "\<not> is_space c" by (simp add: space_before_nl_def)
        with l True show ?thesis by simp
      next
        case False
        have "l' \<in> set (splitlines (d # cs))" using sp by simp
        then have "l' = [] \<or> \<not> is_space (last l')" using "3.IH"(3)[OF n1 \<open>\<not> is_linebreak c\<close> tl] by blast
        with False l show ?thesis by simp
      qed
    next
      assume "l \<in> set ls"
      then have "l \<in> set (splitlines (d # cs))" using sp by simp
      then show ?thesis using "3.IH"(3)[OF n1 False tl] by blast
    qed
  qed
qed

lemma rstrip_lines_id:
  assumes "no_pair space_before_nl s" "only_nl s" "s = [] \<or> \<not> is_space (last s)"
  shows "join_nl (map rstrip (splitlines s)) = s"
proof -
  have "map rstrip (splitlines s) = map (\<lambda>l. l) (splitlines s)"
    using lines_rstripped[OF assms] by (intro map_cong refl rstrip_id) blast
  moreover have "s = [] \<or> \<not> is_linebreak (last s)" using assms(3) linebreak_space by blast
  ultimately show ?thesis using join_splitlines[OF assms(2)] by simp
qed

text \<open>The text joined from right-trimmed lines.\<close>

lemma no_pair_line:
  assumes "NL \<notin> set l" "no_pair space_before_nl rest" "l = [] \<or> \<not> is_space (last l)"
  shows "no_pair space_before_nl (l @ NL # rest)"
  using assms
proof (induction l rule: induct_list012)
  case 1 then show ?case by (simp add: no_pair_Cons space_before_nl_def)
next
  case (2 x) then show ?case by (simp add: no_pair_Cons space_before_nl_def)
next
  case (3 x y zs) then show ?case by (auto simp: space_before_nl_def)
qed

lemma no_pair_no_nl: "NL \<notin> set l \<Longrightarrow> no_pair space_before_nl l"
  by (induction l rule: induct_list012) (auto simp: space_before_nl_def)

lemma no_pair_join:
  assumes "\<forall>l\<in>set ls. NL \<notin> set l \<and> (l = [] \<or> \<not> is_space (last l))"
  shows "no_pair space_before_nl (join_nl ls)"
  using assms
proof (induction ls rule: induct_list012)
  case 1 show ?case by simp
next
  case (2 l) then show ?case by (simp add: no_pair_no_nl)
next
  case (3 l m ls)
  then have "no_pair space_before_nl (join_nl (m # ls))" by simp
  with 3 show ?case by (simp add: no_pair_line del: join_nl.simps(2))
qed

lemma only_nl_join:
  assumes "\<forall>l\<in>set ls. \<forall>c\<in>set l. \<not> is_linebreak c"
  shows "only_nl (join_nl ls)"
  using assms by (induction ls rule: induct_list012) (auto simp: only_nl_def)

lemma rstripped_lines_props:
  "no_pair space_before_nl (join_nl (map rstrip (splitlines s)))
   \<and> only_nl (join_nl (map rstrip (splitlines s)))"
proof -
  have nb: "\<not> is_linebreak c" if "l \<in> set (splitlines s)" "c \<in> set (rstrip l)" for l c
    using that splitlines_no_linebreak[of l s c] set_rstrip[of l] by blast
  have nn: "NL \<notin> set (rstrip l)" if "l \<in> set (splitlines s)" for l
    using nb[OF that, of NL] by auto
  have "\<forall>l\<in>set (map rstrip (splitlines s)). NL \<notin> set l \<and> (l = [] \<or> \<not> is_space (last l))"
    using nn rstrip_last by auto
  moreover have "\<forall>l\<in>set (map rstrip (splitlines s)). \<forall>c\<in>set l. \<not> is_linebreak c"
    using nb by auto
  ultimately show ?thesis using no_pair_join only_nl_join by blast
qed

lemma not_hspace_NL [simp]: "\<not> is_hspace NL" by (simp add: is_hspace_def NL_def)

lemma hspace_space: "is_hspace c \<Longrightarrow> is_space c"
  by (auto simp: is_hspace_def is_space_def)

lemma hspace_not_linebreak: "is_hspace c \<Longrightarrow> \<not> is_linebreak c"
  by (auto simp: is_hspace_def is_linebreak_def)

lemma is_hspace_blank [simp]: "is_hspace (CHR '' '')" by (simp add: is_hspace_def)

lemma hyphen_join_id: "\<not> hyphen_nl s \<Longrightarrow> hyphen_join s = s"
  by (induction s rule: hyphen_join.induct) auto

lemma hspace_neq_NL: "is_hspace c \<Longrightarrow> c \<noteq> NL"
  by (auto simp: is_hspace_def NL_def)

lemma blank_neq_NL [simp]: "CHR '' '' \<noteq> NL" by (simp add: NL_def)

lemma blank_not_linebreak [simp]: "\<not> is_linebreak (CHR '' '')" by (simp add: is_linebreak_def)

lemma no_pair_collapse_nl:
  assumes "no_pair space_before_nl s"
  shows "no_pair space_before_nl (collapse_runs (\<lambda>c. c = NL) 4 [NL, NL] s)"
proof (rule no_pair_collapse[OF _ _ _ _ _ assms])
  show "0 < (4::nat)" by simp
  show "[NL, NL] \<noteq> []" by simp
  show "no_pair space_before_nl [NL, NL]" by (simp add: space_before_nl_def)
  show "\<not> space_before_nl (last [NL, NL]) y" for y by (simp add: space_before_nl_def)
  show "\<not> space_before_nl c (hd [NL, NL])" if "p = NL" "\<not> space_before_nl c p" for c p
    using that by simp
qed

lemma no_pair_collapse_hspace:
  assumes "no_pair space_before_nl s"
  shows "no_pair space_before_nl (collapse_runs is_hspace 2 '' '' s)"
proof (rule no_pair_collapse[OF _ _ _ _ _ assms])
  show "0 < (2::nat)" by simp
  show "'' '' \<noteq> []" by simp
  show "no_pair space_before_nl '' ''" by simp
  show "\<not> space_before_nl (last '' '') y" if "is_hspace p" "\<not> space_before_nl p y" for p y
  proof -
    have "is_space p" "p \<noteq> NL" using that(1) by (simp_all add: hspace_space hspace_neq_NL)
    with that(2) have "y \<noteq> NL" by (simp add: space_before_nl_def)
    then show ?thesis by (simp add: space_before_nl_def)
  qed
  show "\<not> space_before_nl c (hd '' '')" for c by (simp add: space_before_nl_def)
qed

lemma only_nl_collapse:
  assumes "only_nl s" "\<forall>c\<in>set rep. is_linebreak c \<longrightarrow> c = NL"
  shows "only_nl (collapse_runs P k rep s)"
  using assms set_collapse_runs[of P k rep s] unfolding only_nl_def by blast

lemma runs_nl_collapse_hspace:
  assumes "runs_below (\<lambda>c. c = NL) 4 s"
  shows "runs_below (\<lambda>c. c = NL) 4 (collapse_runs is_hspace 2 '' '' s)"
proof (rule runs_below_other_collapse[OF _ _ _ _ assms])
  show "\<forall>c. is_hspace c \<longrightarrow> c \<noteq> NL" by (simp add: hspace_neq_NL)
  show "'' '' \<noteq> []" by simp
  show "\<forall>c\<in>set '' ''. c \<noteq> NL" by simp
  show "0 < (4::nat)" by simp
qed

text \<open>The properties of every output of the normalizer.\<close>

lemma minimal_clean_shape:
  fixes nfkc t
  defines "r \<equiv> minimal_clean nfkc t"
  shows "no_pair space_before_nl r" "only_nl r"
    "runs_below (\<lambda>c. c = NL) 4 r" "runs_below is_hspace 2 r"
    "r = [] \<or> (\<not> is_space (hd r) \<and> \<not> is_space (last r))"
proof -
  define s3 where "s3 = hyphen_join (nfkc (filter (\<lambda>c. c \<noteq> CHR 0x00) t))"
  define s4 where "s4 = join_nl (map rstrip (splitlines s3))"
  define s5 where "s5 = collapse_runs (\<lambda>c. c = NL) 4 [NL, NL] s4"
  define s6 where "s6 = collapse_runs is_hspace 2 '' '' s5"
  have r: "r = strip s6"
    by (simp add: r_def minimal_clean_direct s6_def s5_def s4_def s3_def)
  have q4: "no_pair space_before_nl s4" and o4: "only_nl s4"
    using rstripped_lines_props[of s3] by (simp_all add: s4_def)
  have q5: "no_pair space_before_nl s5"
    unfolding s5_def using q4 by (rule no_pair_collapse_nl)
  have o5: "only_nl s5"
    unfolding s5_def using o4 by (rule only_nl_collapse) simp
  have n5: "runs_below (\<lambda>c. c = NL) 4 s5"
    unfolding s5_def by (rule runs_below_collapse) simp_all
  have q6: "no_pair space_before_nl s6"
    unfolding s6_def using q5 by (rule no_pair_collapse_hspace)
  have o6: "only_nl s6"
    unfolding s6_def using o5 by (rule only_nl_collapse) simp
  have n6: "runs_below (\<lambda>c. c = NL) 4 s6"
    unfolding s6_def using n5 by (rule runs_nl_collapse_hspace)
  have h6: "runs_below is_hspace 2 s6"
    unfolding s6_def by (rule runs_below_collapse) simp_all
  show "no_pair space_before_nl r" unfolding r using q6 by (rule no_pair_strip)
  show "only_nl r" using o6 set_strip[of s6] unfolding r only_nl_def by blast
  show "runs_below (\<lambda>c. c = NL) 4 r" unfolding r using n6 by (rule runs_below_strip)
  show "runs_below is_hspace 2 r" unfolding r using h6 by (rule runs_below_strip)
  show "r = [] \<or> (\<not> is_space (hd r) \<and> \<not> is_space (last r))" unfolding r by (rule strip_ends)
qed

text \<open>Rules 4 to 7 leave a text of that shape as it is.\<close>

lemma shape_fixed:
  assumes "no_pair space_before_nl r" "only_nl r"
    "runs_below (\<lambda>c. c = NL) 4 r" "runs_below is_hspace 2 r"
    "r = [] \<or> (\<not> is_space (hd r) \<and> \<not> is_space (last r))"
  shows "strip (collapse_runs is_hspace 2 '' ''
       (collapse_runs (\<lambda>c. c = NL) 4 [NL, NL] (join_nl (map rstrip (splitlines r))))) = r"
proof -
  have "join_nl (map rstrip (splitlines r)) = r"
    using assms(1,2,5) by (intro rstrip_lines_id) auto
  moreover have "collapse_runs (\<lambda>c. c = NL) 4 [NL, NL] r = r"
    using assms(3) by (rule collapse_runs_id)
  moreover have "collapse_runs is_hspace 2 '' '' r = r"
    using assms(4) by (rule collapse_runs_id)
  moreover have "strip r = r" using assms(5) by (rule strip_id)
  ultimately show ?thesis by simp
qed

lemma length_hyphen_join: "length (hyphen_join s) \<le> length s"
proof (induction s rule: hyphen_join.induct)
  case (3 c d cs)
  show ?case
  proof (cases "c = CHR ''-'' \<and> d = NL")
    case True
    have "length (hyphen_join (dropWhile is_space cs)) \<le> length (dropWhile is_space cs)"
      using True by (rule "3.IH"(1))
    also have "\<dots> \<le> length cs" by (rule length_dropWhile_le)
    finally show ?thesis using True by simp
  next
    case False
    with "3.IH"(2) show ?thesis by auto
  qed
qed simp_all

lemma length_hyphen_join_less: "hyphen_nl s \<Longrightarrow> length (hyphen_join s) < length s"
proof (induction s rule: hyphen_join.induct)
  case (3 c d cs)
  show ?case
  proof (cases "c = CHR ''-'' \<and> d = NL")
    case True
    have "length (hyphen_join (dropWhile is_space cs)) \<le> length (dropWhile is_space cs)"
      by (rule length_hyphen_join)
    also have "\<dots> \<le> length cs" by (rule length_dropWhile_le)
    finally show ?thesis using True by simp
  next
    case False
    with "3.prems" have "hyphen_nl (d # cs)" by auto
    with "3.IH"(2) False show ?thesis by auto
  qed
qed simp_all

lemma length_join_nl: "length (join_nl ls) = sum_list (map length ls) + (length ls - 1)"
  by (induction ls rule: induct_list012) simp_all

lemma length_rstrip: "length (rstrip s) \<le> length s"
proof -
  have "length (rstrip s) = length (take (length (rstrip s)) s)"
    by (rule arg_cong[OF rstrip_prefix])
  also have "\<dots> \<le> length s" by simp
  finally show ?thesis .
qed

lemma sum_length_rstrip: "sum_list (map length (map rstrip ls)) \<le> sum_list (map length ls)"
proof (induction ls)
  case Nil show ?case by simp
next
  case (Cons l ls)
  with length_rstrip[of l] show ?case by simp
qed

lemma length_join_rstrip: "length (join_nl (map rstrip ls)) \<le> length (join_nl ls)"
  using sum_length_rstrip[of ls] by (simp add: length_join_nl)

lemma length_join_splitlines: "length (join_nl (splitlines s)) \<le> length s"
proof (induction s rule: splitlines.induct)
  case 1 show ?case by simp
next
  case (2 c) show ?case by simp
next
  case (3 c d cs)
  show ?case
  proof (cases "c = CR \<and> d = NL")
    case True
    with "3.IH"(1) show ?thesis by (cases "splitlines cs") (auto simp: join_nl_Cons)
  next
    case n1: False
    show ?thesis
    proof (cases "is_linebreak c")
      case True
      have ne: "splitlines (d # cs) \<noteq> []" by simp
      have "splitlines (c # d # cs) = [] # splitlines (d # cs)" using n1 True by auto
      moreover have "join_nl ([] # splitlines (d # cs)) = [] @ NL # join_nl (splitlines (d # cs))"
        using ne by (rule join_nl_Cons)
      ultimately have "join_nl (splitlines (c # d # cs)) = NL # join_nl (splitlines (d # cs))"
        by simp
      with "3.IH"(2)[OF n1 True] show ?thesis by simp
    next
      case False
      obtain l ls where sp: "splitlines (d # cs) = l # ls"
        by (cases "splitlines (d # cs)") auto
      have "splitlines (c # d # cs) = (c # l) # ls" using n1 False sp by auto
      then have "join_nl (splitlines (c # d # cs)) = c # join_nl (splitlines (d # cs))"
        using sp by (simp add: join_nl_Cons_Cons)
      with "3.IH"(3)[OF n1 False] show ?thesis by simp
    qed
  qed
qed

lemma length_collapse_runs:
  assumes "length rep \<le> k"
  shows "length (collapse_runs P k rep s) \<le> length s"
proof (induction s rule: length_induct)
  case (1 s)
  show ?case
  proof (cases s)
    case Nil then show ?thesis by simp
  next
    case (Cons c cs)
    show ?thesis
    proof (cases "P c \<and> k \<le> Suc (length (takeWhile P cs))")
      case True
      let ?r = "dropWhile P cs"
      have g: "collapse_runs P k rep s = rep @ collapse_runs P k rep ?r"
        unfolding Cons using True by (intro collapse_runs_match) simp_all
      have "length ?r < length s" using Cons length_dropWhile_le[of P cs] by simp
      with 1 have ih: "length (collapse_runs P k rep ?r) \<le> length ?r" by blast
      have "length (takeWhile P cs @ ?r) = length (takeWhile P cs) + length ?r"
        by (rule length_append)
      then have "length cs = length (takeWhile P cs) + length ?r" by simp
      then have "length s = Suc (length (takeWhile P cs)) + length ?r" using Cons by simp
      with True assms ih show ?thesis unfolding g by simp
    next
      case False
      have g: "collapse_runs P k rep s = c # collapse_runs P k rep cs"
        unfolding Cons using False by (rule collapse_runs_skip)
      have "length (collapse_runs P k rep cs) \<le> length cs" using 1 Cons by simp
      then show ?thesis unfolding g using Cons by simp
    qed
  qed
qed

lemma length_strip: "length (strip s) \<le> length s"
proof -
  obtain i n where "strip s = take n (drop i s)" using strip_sub by blast
  then show ?thesis by simp
qed

lemma length_after_hyphen_join:
  "length (strip (collapse_runs is_hspace 2 '' ''
       (collapse_runs (\<lambda>c. c = NL) 4 [NL, NL] (join_nl (map rstrip (splitlines s)))))) \<le> length s"
proof -
  let ?s4 = "join_nl (map rstrip (splitlines s))"
  let ?s5 = "collapse_runs (\<lambda>c. c = NL) 4 [NL, NL] ?s4"
  let ?s6 = "collapse_runs is_hspace 2 '' '' ?s5"
  have "length (strip ?s6) \<le> length ?s6" by (rule length_strip)
  also have "\<dots> \<le> length ?s5" by (rule length_collapse_runs) simp
  also have "\<dots> \<le> length ?s4" by (rule length_collapse_runs) simp
  also have "\<dots> \<le> length (join_nl (splitlines s))" by (rule length_join_rstrip)
  also have "\<dots> \<le> length s" by (rule length_join_splitlines)
  finally show ?thesis .
qed

section \<open>Fixed points of the normalizer\<close>

text \<open>
  Claim C5 fails as stated: trailing blanks are trimmed after the hyphenation rejoin, so
  the first pass can leave a hyphen at the end of a line, which the second pass joins.
\<close>

theorem normalizer_not_idempotent_counterexample:
  "minimal_clean id ''a- \<newline>b'' = ''a-\<newline>b''
   \<and> minimal_clean id (minimal_clean id ''a- \<newline>b'') = ''ab''
   \<and> minimal_clean id (minimal_clean id ''a- \<newline>b'') \<noteq> minimal_clean id ''a- \<newline>b''"
  by code_simp

text \<open>
  Claim C5, amended.  For an output of the normalizer that the first two rules leave
  unchanged (it holds no null character and is in NFKC form, as every ASCII output is),
  normalizing it again gives it back exactly when it holds no hyphen immediately
  followed by a newline.
\<close>

theorem normalizer_fixed_point_iff:
  assumes "nfkc (filter (\<lambda>c. c \<noteq> CHR 0x00) (minimal_clean nfkc t)) = minimal_clean nfkc t"
  shows "minimal_clean nfkc (minimal_clean nfkc t) = minimal_clean nfkc t
           \<longleftrightarrow> \<not> hyphen_nl (minimal_clean nfkc t)"
proof
  assume fp: "minimal_clean nfkc (minimal_clean nfkc t) = minimal_clean nfkc t"
  show "\<not> hyphen_nl (minimal_clean nfkc t)"
  proof
    assume h: "hyphen_nl (minimal_clean nfkc t)"
    let ?r = "minimal_clean nfkc t"
    have "length (minimal_clean nfkc ?r) \<le> length (hyphen_join ?r)"
      unfolding minimal_clean_direct[of nfkc ?r] assms by (rule length_after_hyphen_join)
    also have "\<dots> < length ?r" using h by (rule length_hyphen_join_less)
    finally show False using fp by simp
  qed
next
  assume nh: "\<not> hyphen_nl (minimal_clean nfkc t)"
  let ?r = "minimal_clean nfkc t"
  have hj: "hyphen_join ?r = ?r" using nh by (rule hyphen_join_id)
  have "minimal_clean nfkc ?r = strip (collapse_runs is_hspace 2 '' ''
       (collapse_runs (\<lambda>c. c = NL) 4 [NL, NL] (join_nl (map rstrip (splitlines ?r)))))"
    unfolding minimal_clean_direct[of nfkc ?r] assms hj ..
  also have "\<dots> = ?r" by (rule shape_fixed) (rule minimal_clean_shape)+
  finally show "minimal_clean nfkc ?r = ?r" .
qed

theorem normalizer_fixed_point_iff_witness:
  "minimal_clean id (minimal_clean id ''Pasal  1 \<newline>\<newline>\<newline>\<newline>\<newline> (1) isi-\<newline>nya '')
     = minimal_clean id ''Pasal  1 \<newline>\<newline>\<newline>\<newline>\<newline> (1) isi-\<newline>nya ''"
proof -
  have h1: "id (filter (\<lambda>c. c \<noteq> CHR 0x00)
        (minimal_clean id ''Pasal  1 \<newline>\<newline>\<newline>\<newline>\<newline> (1) isi-\<newline>nya ''))
      = minimal_clean id ''Pasal  1 \<newline>\<newline>\<newline>\<newline>\<newline> (1) isi-\<newline>nya ''"
    by code_simp
  have h2: "\<not> hyphen_nl (minimal_clean id ''Pasal  1 \<newline>\<newline>\<newline>\<newline>\<newline> (1) isi-\<newline>nya '')"
    by code_simp
  from normalizer_fixed_point_iff[OF h1] h2 show ?thesis by blast
qed

lemma no_pair_no_first: "(\<And>c d. c \<in> set s \<Longrightarrow> \<not> R c d) \<Longrightarrow> no_pair R s"
  by (induction s rule: induct_list012) auto

lemma no_pair_no_second: "(\<And>c d. d \<in> set s \<Longrightarrow> \<not> R c d) \<Longrightarrow> no_pair R s"
  by (induction s rule: induct_list012) auto

lemma hyphen_nl_no_pair: "hyphen_nl s \<longleftrightarrow> \<not> no_pair (\<lambda>c d. c = CHR ''-'' \<and> d = NL) s"
  by (induction s rule: hyphen_nl.induct) auto

lemma runs_below_none: "\<forall>c\<in>set s. \<not> P c \<Longrightarrow> 0 < k \<Longrightarrow> runs_below P k s"
  using runs_below_prepend_other[of s P k "[]"] by simp

lemma collapse_runs_prefix:
  "\<forall>x\<in>set a. \<not> P x \<Longrightarrow> collapse_runs P k rep (a @ s) = a @ collapse_runs P k rep s"
  by (induction a) (simp_all add: collapse_runs_skip del: collapse_runs.simps)

lemma no_pair_appendI:
  "no_pair R a \<Longrightarrow> no_pair R b \<Longrightarrow> (a \<noteq> [] \<Longrightarrow> b \<noteq> [] \<Longrightarrow> \<not> R (last a) (hd b)) \<Longrightarrow>
     no_pair R (a @ b)"
  by (simp only: no_pair_append) blast

lemma last_replicate_in: "replicate n x \<noteq> [] \<Longrightarrow> last (replicate n x) = x"
  by (cases n) simp_all

lemma takeWhile_replicate_append:
  "P x \<Longrightarrow> v = [] \<or> \<not> P (hd v) \<Longrightarrow> takeWhile P (replicate m x @ v) = replicate m x"
  by (induction m) (cases v, auto)+

lemma dropWhile_replicate_append:
  "P x \<Longrightarrow> v = [] \<or> \<not> P (hd v) \<Longrightarrow> dropWhile P (replicate m x @ v) = v"
  by (induction m) (cases v, auto)+

lemma collapse_newline_run:
  assumes "v \<noteq> []" "NL \<notin> set v"
  shows "collapse_runs (\<lambda>c. c = NL) 4 [NL, NL] (replicate n NL @ v)
           = replicate (if 4 \<le> n then 2 else n) NL @ v"
proof -
  let ?P = "\<lambda>c. c = NL"
  have hv: "\<not> ?P (hd v)" using assms by (cases v) auto
  have rv: "runs_below ?P 4 v" using assms(2) by (intro runs_below_none) auto
  show ?thesis
  proof (cases "4 \<le> n")
    case True
    then obtain m where n: "n = Suc m" by (cases n) auto
    have tw: "takeWhile ?P (replicate m NL @ v) = replicate m NL"
      using hv by (intro takeWhile_replicate_append) simp_all
    have dw: "dropWhile ?P (replicate m NL @ v) = v"
      using hv by (intro dropWhile_replicate_append) simp_all
    have "collapse_runs ?P 4 [NL, NL] (NL # replicate m NL @ v)
        = [NL, NL] @ collapse_runs ?P 4 [NL, NL] (dropWhile ?P (replicate m NL @ v))"
      using True n tw by (intro collapse_runs_match) simp_all
    also have "collapse_runs ?P 4 [NL, NL] (dropWhile ?P (replicate m NL @ v)) = v"
      unfolding dw using rv by (rule collapse_runs_id)
    finally show ?thesis using True n by (simp add: numeral_2_eq_2)
  next
    case False
    have "runs_below ?P 4 (replicate n NL @ v)"
      using False hv rv by (intro runs_below_append_run) auto
    then have "collapse_runs ?P 4 [NL, NL] (replicate n NL @ v) = replicate n NL @ v"
      by (rule collapse_runs_id)
    with False show ?thesis by simp
  qed
qed

section \<open>Collapsing of newline runs\<close>

text \<open>
  Claim C2 fails as stated: rule 5 counts newline characters, not blank lines.  Three
  blank lines between two words are four newlines, and are collapsed to two newlines,
  that is to one blank line.
\<close>

theorem blank_lines_counterexample:
  "minimal_clean id ''a\<newline>\<newline>\<newline>\<newline>b'' = ''a\<newline>\<newline>b''
   \<and> minimal_clean id ''a\<newline>\<newline>\<newline>\<newline>b'' \<noteq> ''a\<newline>\<newline>\<newline>\<newline>b''"
  by code_simp

subsection \<open>Each rule of the normalizer around a run of newlines\<close>


lemma last_dropWhile_ne: "dropWhile P s \<noteq> [] \<Longrightarrow> last (dropWhile P s) = last s"
proof -
  assume a: "dropWhile P s \<noteq> []"
  have "s = takeWhile P s @ dropWhile P s" by simp
  then have "last s = last (takeWhile P s @ dropWhile P s)" by simp
  also have "\<dots> = last (dropWhile P s)" using a by (rule last_appendR)
  finally show ?thesis by simp
qed

lemma dropWhile_keeps_last:
  assumes "s \<noteq> []" "\<not> P (last s)"
  shows "dropWhile P s \<noteq> [] \<and> last (dropWhile P s) = last s"
proof -
  have "last s \<in> set s" using assms(1) by simp
  with assms(2) have "dropWhile P s \<noteq> []" by (auto simp: dropWhile_eq_Nil_conv)
  with last_dropWhile_ne show ?thesis by blast
qed

lemma hyphen_join_last:
  "u \<noteq> [] \<Longrightarrow> \<not> is_space (last u) \<Longrightarrow> hyphen_join u \<noteq> [] \<and> last (hyphen_join u) = last u"
proof (induction u rule: hyphen_join.induct)
  case 1 then show ?case by simp
next
  case (2 c) then show ?case by simp
next
  case (3 c d cs)
  show ?case
  proof (cases "c = CHR ''-'' \<and> d = NL")
    case True
    with "3.prems" have cs: "cs \<noteq> []" by (cases cs) auto
    with "3.prems" have l: "\<not> is_space (last cs)" by simp
    from dropWhile_keeps_last[where P = is_space, OF cs l]
    have d: "dropWhile is_space cs \<noteq> []" "last (dropWhile is_space cs) = last cs" by simp_all
    from "3.IH"(1)[OF True d(1)] d(2) l
    have "hyphen_join (dropWhile is_space cs) \<noteq> [] \<and> last (hyphen_join (dropWhile is_space cs)) = last cs"
      by simp
    with True cs show ?thesis by simp
  next
    case False
    from "3.prems" have "\<not> is_space (last (d # cs))" by simp
    from "3.IH"(2)[OF False _ this]
    have "hyphen_join (d # cs) \<noteq> [] \<and> last (hyphen_join (d # cs)) = last (d # cs)" by simp
    with False show ?thesis by auto
  qed
qed

lemma hyphen_join_hd:
  "v \<noteq> [] \<Longrightarrow> hd v \<noteq> CHR ''-'' \<Longrightarrow> hyphen_join v \<noteq> [] \<and> hd (hyphen_join v) = hd v"
  by (induction v rule: hyphen_join.induct) auto

lemma hyphen_join_append_visible:
  "u \<noteq> [] \<Longrightarrow> \<not> is_space (last u) \<Longrightarrow> last u \<noteq> CHR ''-'' \<Longrightarrow>
     hyphen_join (u @ w) = hyphen_join u @ hyphen_join w"
proof (induction u rule: hyphen_join.induct)
  case 1 then show ?case by simp
next
  case (2 c)
  then show ?case by (cases w) auto
next
  case (3 c d cs)
  show ?case
  proof (cases "c = CHR ''-'' \<and> d = NL")
    case True
    with "3.prems" have cs: "cs \<noteq> []" by (cases cs) auto
    with "3.prems" have l: "\<not> is_space (last cs)" "last cs \<noteq> CHR ''-''" by simp_all
    from dropWhile_keeps_last[where P = is_space, OF cs l(1)]
    have d: "dropWhile is_space cs \<noteq> []" "last (dropWhile is_space cs) = last cs" by simp_all
    have "last cs \<in> set cs" using cs by simp
    then have dw: "dropWhile is_space (cs @ w) = dropWhile is_space cs @ w"
      using l(1) by (rule dropWhile_append1)
    have "hyphen_join (dropWhile is_space cs @ w)
        = hyphen_join (dropWhile is_space cs) @ hyphen_join w"
      using "3.IH"(1)[OF True d(1)] d(2) l by simp
    with True dw show ?thesis by simp
  next
    case False
    from "3.prems" have p: "\<not> is_space (last (d # cs))" "last (d # cs) \<noteq> CHR ''-''" by simp_all
    have "hyphen_join ((d # cs) @ w) = hyphen_join (d # cs) @ hyphen_join w"
      using "3.IH"(2)[OF False _ p] by simp
    with False show ?thesis by auto
  qed
qed

lemma hyphen_join_newlines:
  "v \<noteq> [] \<Longrightarrow> hyphen_join (replicate n NL @ v) = replicate n NL @ hyphen_join v"
proof (induction n)
  case 0 show ?case by simp
next
  case (Suc n)
  obtain d cs where dc: "replicate n NL @ v = d # cs" using Suc.prems by (cases "replicate n NL @ v") auto
  have "NL \<noteq> CHR ''-''" by (simp add: NL_def)
  then have "hyphen_join (NL # d # cs) = NL # hyphen_join (d # cs)" by simp
  with dc Suc show ?case by simp
qed

lemma splitlines_crlf: "splitlines (CR # NL # cs) = [] # splitlines cs"
  by simp

lemma splitlines_break:
  "\<not> (c = CR \<and> d = NL) \<Longrightarrow> is_linebreak c \<Longrightarrow> splitlines (c # d # cs) = [] # splitlines (d # cs)"
  by auto

lemma splitlines_other:
  "\<not> is_linebreak c \<Longrightarrow> splitlines (d # cs) = l # ls \<Longrightarrow> splitlines (c # d # cs) = (c # l) # ls"
  using is_linebreak_CR by auto

lemma splitlines_append_NL:
  "a \<noteq> [] \<Longrightarrow> \<not> is_linebreak (last a) \<Longrightarrow> b \<noteq> [] \<Longrightarrow>
     splitlines (a @ NL # b) = splitlines a @ splitlines b"
proof (induction a rule: splitlines.induct)
  case 1 then show ?case by simp
next
  case (2 c)
  obtain d cs where b: "b = d # cs" using "2.prems"(3) by (cases b) auto
  have c: "\<not> is_linebreak c" using "2.prems"(2) by simp
  then have "c \<noteq> CR" using is_linebreak_CR by auto
  with c b show ?case by simp
next
  case (3 c d cs)
  show ?case
  proof (cases "c = CR \<and> d = NL")
    case True
    with "3.prems"(2) have cs: "cs \<noteq> []" by (cases cs) auto
    with "3.prems"(2) have "\<not> is_linebreak (last cs)" by simp
    from "3.IH"(1)[OF True cs this "3.prems"(3)]
    have "splitlines (cs @ NL # b) = splitlines cs @ splitlines b" .
    then show ?thesis using True by (simp add: splitlines_crlf del: splitlines.simps)
  next
    case False
    from "3.prems"(2) have l: "\<not> is_linebreak (last (d # cs))" by simp
    show ?thesis
    proof (cases "is_linebreak c")
      case True
      from "3.IH"(2)[OF False True _ l "3.prems"(3)]
      have e: "splitlines ((d # cs) @ NL # b) = splitlines (d # cs) @ splitlines b" by simp
      have "splitlines (c # d # (cs @ NL # b)) = [] # splitlines (d # (cs @ NL # b))"
        by (rule splitlines_break[OF False True])
      moreover have "splitlines (c # d # cs) = [] # splitlines (d # cs)"
        by (rule splitlines_break[OF False True])
      ultimately show ?thesis using e by (simp del: splitlines.simps)
    next
      case nl: False
      from "3.IH"(3)[OF False nl _ l "3.prems"(3)]
      have e: "splitlines ((d # cs) @ NL # b) = splitlines (d # cs) @ splitlines b" by simp
      obtain l' ls where s: "splitlines (d # cs) = l' # ls" by (cases "splitlines (d # cs)") auto
      have "splitlines (d # (cs @ NL # b)) = l' # (ls @ splitlines b)" using e s by simp
      from splitlines_other[OF nl this] splitlines_other[OF nl s]
      show ?thesis by (simp del: splitlines.simps)
    qed
  qed
qed

lemma join_nl_append:
  "A \<noteq> [] \<Longrightarrow> B \<noteq> [] \<Longrightarrow> join_nl (A @ B) = join_nl A @ NL # join_nl B"
proof (induction A)
  case Nil then show ?case by simp
next
  case (Cons l A)
  show ?case
  proof (cases A)
    case Nil
    with Cons.prems(2) show ?thesis by (simp add: join_nl_Cons)
  next
    case (Cons m A')
    with Cons.IH Cons.prems(2) have "join_nl (A @ B) = join_nl A @ NL # join_nl B" by simp
    with Cons show ?thesis by (simp add: join_nl_Cons)
  qed
qed

lemma rstrip_lines_append_NL:
  assumes "a \<noteq> []" "\<not> is_linebreak (last a)" "b \<noteq> []"
  shows "rstrip_lines (a @ NL # b) = rstrip_lines a @ NL # rstrip_lines b"
proof -
  have "splitlines a \<noteq> []" "splitlines b \<noteq> []" using assms by simp_all
  then show ?thesis
    unfolding rstrip_lines_def splitlines_append_NL[OF assms]
    by (simp add: join_nl_append)
qed

lemma rstrip_lines_NL:
  assumes "b \<noteq> []"
  shows "rstrip_lines (NL # b) = NL # rstrip_lines b"
proof -
  obtain d cs where b: "b = d # cs" using assms by (cases b) auto
  have "splitlines (NL # d # cs) = [] # splitlines (d # cs)" by simp
  moreover have "map rstrip (splitlines (d # cs)) \<noteq> []" by simp
  moreover have "rstrip [] = []" by (simp add: rstrip_def)
  ultimately show ?thesis unfolding rstrip_lines_def b by (simp add: join_nl_Cons)
qed

lemma rstrip_lines_newlines:
  "v \<noteq> [] \<Longrightarrow> rstrip_lines (replicate n NL @ v) = replicate n NL @ rstrip_lines v"
  by (induction n) (simp_all add: rstrip_lines_NL)

lemma rstrip_lines_run:
  assumes "a \<noteq> []" "\<not> is_linebreak (last a)" "v \<noteq> []" "0 < n"
  shows "rstrip_lines (a @ replicate n NL @ v) = rstrip_lines a @ replicate n NL @ rstrip_lines v"
proof -
  obtain m where n: "n = Suc m" using assms(4) by (cases n) auto
  have ne: "replicate m NL @ v \<noteq> []" using assms(3) by simp
  have "rstrip_lines (a @ NL # (replicate m NL @ v))
      = rstrip_lines a @ NL # rstrip_lines (replicate m NL @ v)"
    by (rule rstrip_lines_append_NL[OF assms(1,2) ne])
  then show ?thesis by (simp add: n rstrip_lines_newlines[OF assms(3)])
qed

lemma last_splitlines:
  "a \<noteq> [] \<Longrightarrow> \<not> is_linebreak (last a) \<Longrightarrow>
     last (splitlines a) \<noteq> [] \<and> last (last (splitlines a)) = last a"
proof (induction a rule: splitlines.induct)
  case 1 then show ?case by simp
next
  case (2 c) then show ?case by simp
next
  case (3 c d cs)
  show ?case
  proof (cases "c = CR \<and> d = NL")
    case True
    with "3.prems"(2) have cs: "cs \<noteq> []" by (cases cs) auto
    with "3.prems"(2) have "\<not> is_linebreak (last cs)" by simp
    from "3.IH"(1)[OF True cs this]
    have "last (splitlines cs) \<noteq> [] \<and> last (last (splitlines cs)) = last cs" .
    then show ?thesis using True cs by (simp add: splitlines_crlf del: splitlines.simps)
  next
    case False
    from "3.prems"(2) have l: "\<not> is_linebreak (last (d # cs))" by simp
    show ?thesis
    proof (cases "is_linebreak c")
      case True
      from "3.IH"(2)[OF False True _ l]
      have e: "last (splitlines (d # cs)) \<noteq> [] \<and> last (last (splitlines (d # cs))) = last (d # cs)"
        by simp
      have "splitlines (c # d # cs) = [] # splitlines (d # cs)"
        by (rule splitlines_break[OF False True])
      then show ?thesis using e by (simp del: splitlines.simps)
    next
      case nl: False
      from "3.IH"(3)[OF False nl _ l]
      have e: "last (splitlines (d # cs)) \<noteq> [] \<and> last (last (splitlines (d # cs))) = last (d # cs)"
        by simp
      obtain l' ls where s: "splitlines (d # cs) = l' # ls" by (cases "splitlines (d # cs)") auto
      from splitlines_other[OF nl s] e s show ?thesis by (cases ls) (simp_all del: splitlines.simps)
    qed
  qed
qed

lemma last_join_nl: "ls \<noteq> [] \<Longrightarrow> last ls \<noteq> [] \<Longrightarrow> join_nl ls \<noteq> [] \<and> last (join_nl ls) = last (last ls)"
  by (induction ls rule: join_nl.induct) auto

lemma rstrip_lines_last:
  assumes "a \<noteq> []" "\<not> is_space (last a)"
  shows "rstrip_lines a \<noteq> [] \<and> last (rstrip_lines a) = last a"
proof -
  have nl: "\<not> is_linebreak (last a)" using assms(2) linebreak_space by blast
  from last_splitlines[OF assms(1) nl]
  have l: "last (splitlines a) \<noteq> []" "last (last (splitlines a)) = last a" by simp_all
  have ne: "splitlines a \<noteq> []" using assms(1) by simp
  have "last (map rstrip (splitlines a)) = rstrip (last (splitlines a))"
    using ne by (simp add: last_map)
  also have "\<dots> = last (splitlines a)" using l assms(2) by (intro rstrip_id) simp
  finally have lm: "last (map rstrip (splitlines a)) = last (splitlines a)" .
  have "map rstrip (splitlines a) \<noteq> []" using ne by simp
  from last_join_nl[OF this] lm l show ?thesis by (simp add: rstrip_lines_def)
qed

lemma hd_splitlines_visible:
  assumes "v \<noteq> []" "\<not> is_linebreak (hd v)"
  shows "hd (splitlines v) \<noteq> [] \<and> hd (hd (splitlines v)) = hd v"
proof (cases v rule: splitlines.cases)
  case 1 with assms show ?thesis by simp
next
  case (2 c) with assms show ?thesis by simp
next
  case (3 c d cs)
  with assms have c: "\<not> is_linebreak c" by simp
  obtain l ls where s: "splitlines (d # cs) = l # ls" by (cases "splitlines (d # cs)") auto
  from splitlines_other[OF c s] 3 show ?thesis by (simp del: splitlines.simps)
qed

lemma rstrip_hd:
  assumes "l \<noteq> []" "\<not> is_space (hd l)"
  shows "rstrip l \<noteq> [] \<and> hd (rstrip l) = hd l"
proof -
  have "strip l = rstrip l" using assms by (cases l) (auto simp: strip_def lstrip_def)
  moreover have "strip l \<noteq> []" using assms by (cases l) (auto simp: strip_Nil_iff)
  moreover have "rstrip l = take (length (rstrip l)) l" by (rule rstrip_prefix)
  ultimately show ?thesis by (metis hd_take length_greater_0_conv)
qed

lemma hd_join_nl: "ls \<noteq> [] \<Longrightarrow> hd ls \<noteq> [] \<Longrightarrow> join_nl ls \<noteq> [] \<and> hd (join_nl ls) = hd (hd ls)"
  by (cases ls rule: join_nl.cases) auto

lemma rstrip_lines_hd:
  assumes "v \<noteq> []" "\<not> is_space (hd v)"
  shows "rstrip_lines v \<noteq> [] \<and> hd (rstrip_lines v) = hd v"
proof -
  have nl: "\<not> is_linebreak (hd v)" using assms(2) linebreak_space by blast
  from hd_splitlines_visible[OF assms(1) nl]
  have h: "hd (splitlines v) \<noteq> []" "hd (hd (splitlines v)) = hd v" by simp_all
  have ne: "splitlines v \<noteq> []" using assms(1) by simp
  have "hd (map rstrip (splitlines v)) = rstrip (hd (splitlines v))" using ne by (simp add: hd_map)
  with rstrip_hd[OF h(1)] h(2) assms(2)
  have "hd (map rstrip (splitlines v)) \<noteq> [] \<and> hd (hd (map rstrip (splitlines v))) = hd v" by simp
  moreover have "map rstrip (splitlines v) \<noteq> []" using ne by simp
  ultimately show ?thesis using hd_join_nl by (simp add: rstrip_lines_def)
qed

lemma collapse_runs_append:
  "a = [] \<or> \<not> P (last a) \<Longrightarrow>
     collapse_runs P k rep (a @ b) = collapse_runs P k rep a @ collapse_runs P k rep b"
proof (induction a rule: length_induct)
  case (1 a)
  show ?case
  proof (cases a)
    case Nil then show ?thesis by simp
  next
    case (Cons c cs)
    with 1(2) have la: "\<not> P (last (c # cs))" by simp
    show ?thesis
    proof (cases "P c")
      case False
      have cs: "cs = [] \<or> \<not> P (last cs)" using la by (cases cs) auto
      have "length cs < length a" by (simp add: Cons)
      with 1(1) cs have IH: "collapse_runs P k rep (cs @ b) = collapse_runs P k rep cs @ collapse_runs P k rep b"
        by blast
      have "collapse_runs P k rep (c # (cs @ b)) = c # collapse_runs P k rep (cs @ b)"
        by (rule collapse_runs_skip) (simp add: False)
      moreover have "collapse_runs P k rep (c # cs) = c # collapse_runs P k rep cs"
        by (rule collapse_runs_skip) (simp add: False)
      ultimately show ?thesis using IH by (simp add: Cons del: collapse_runs.simps)
    next
      case True
      with la have ne: "cs \<noteq> []" by (cases cs) auto
      then have lcs: "\<not> P (last cs)" using la by simp
      have mem: "last cs \<in> set cs" using ne by simp
      have tw: "takeWhile P (cs @ b) = takeWhile P cs" using mem lcs by (rule takeWhile_append1)
      have dw: "dropWhile P (cs @ b) = dropWhile P cs @ b" using mem lcs by (rule dropWhile_append1)
      from dropWhile_keeps_last[where P = P, OF ne lcs]
      have d: "dropWhile P cs \<noteq> []" "last (dropWhile P cs) = last cs" by simp_all
      have "length (dropWhile P cs) < length a" using length_dropWhile_le[of P cs] by (simp add: Cons)
      with 1(1) d lcs
      have IH1: "collapse_runs P k rep (dropWhile P cs @ b)
           = collapse_runs P k rep (dropWhile P cs) @ collapse_runs P k rep b" by simp
      have cs': "cs = [] \<or> \<not> P (last cs)" using lcs by simp
      have "length cs < length a" by (simp add: Cons)
      with 1(1) cs' have IH2: "collapse_runs P k rep (cs @ b) = collapse_runs P k rep cs @ collapse_runs P k rep b"
        by blast
      show ?thesis
      proof (cases "k \<le> Suc (length (takeWhile P cs))")
        case k: True
        have "collapse_runs P k rep (c # (cs @ b)) = rep @ collapse_runs P k rep (dropWhile P (cs @ b))"
          by (rule collapse_runs_match[where P = P and c = c, OF True]) (simp add: tw k)
        moreover have "collapse_runs P k rep (c # cs) = rep @ collapse_runs P k rep (dropWhile P cs)"
          by (rule collapse_runs_match[where P = P and c = c, OF True k])
        ultimately show ?thesis using IH1 dw by (simp add: Cons del: collapse_runs.simps)
      next
        case k: False
        have "collapse_runs P k rep (c # (cs @ b)) = c # collapse_runs P k rep (cs @ b)"
          by (rule collapse_runs_skip) (simp add: tw k)
        moreover have "collapse_runs P k rep (c # cs) = c # collapse_runs P k rep cs"
          by (rule collapse_runs_skip) (simp add: k)
        ultimately show ?thesis using IH2 by (simp add: Cons del: collapse_runs.simps)
      qed
    qed
  qed
qed

lemma collapse_runs_short_run:
  "P p \<Longrightarrow> b = [] \<or> \<not> P (hd b) \<Longrightarrow> n < k \<Longrightarrow>
     collapse_runs P k rep (replicate n p @ b) = replicate n p @ collapse_runs P k rep b"
proof (induction n)
  case 0 show ?case by simp
next
  case (Suc n)
  have tw: "takeWhile P (replicate n p @ b) = replicate n p"
    using Suc.prems(1,2) by (rule takeWhile_replicate_append)
  have "collapse_runs P k rep (p # (replicate n p @ b)) = p # collapse_runs P k rep (replicate n p @ b)"
    by (rule collapse_runs_skip) (use Suc.prems(3) in \<open>simp add: tw\<close>)
  with Suc show ?case by (simp del: collapse_runs.simps)
qed

lemma collapse_runs_long_run:
  assumes "P p" "b = [] \<or> \<not> P (hd b)" "k \<le> n" "0 < k"
  shows "collapse_runs P k rep (replicate n p @ b) = rep @ collapse_runs P k rep b"
proof -
  obtain m where n: "n = Suc m" using assms(3,4) by (cases n) auto
  have tw: "takeWhile P (replicate m p @ b) = replicate m p"
    using assms(1,2) by (rule takeWhile_replicate_append)
  have dw: "dropWhile P (replicate m p @ b) = b"
    using assms(1,2) by (rule dropWhile_replicate_append)
  have "collapse_runs P k rep (p # (replicate m p @ b)) = rep @ collapse_runs P k rep (dropWhile P (replicate m p @ b))"
    by (rule collapse_runs_match[where P = P and c = p, OF assms(1)]) (use assms(3) n in \<open>simp add: tw\<close>)
  then show ?thesis by (simp add: n dw del: collapse_runs.simps)
qed

lemma collapse_runs_last:
  "s \<noteq> [] \<Longrightarrow> \<not> P (last s) \<Longrightarrow>
     collapse_runs P k rep s \<noteq> [] \<and> last (collapse_runs P k rep s) = last s"
proof (induction s rule: length_induct)
  case (1 s)
  then obtain c cs where s: "s = c # cs" by (cases s) auto
  show ?case
  proof (cases "P c \<and> k \<le> Suc (length (takeWhile P cs))")
    case True
    with 1(3) s have ne: "cs \<noteq> []" by (cases cs) auto
    then have lcs: "\<not> P (last cs)" using 1(3) s by simp
    from dropWhile_keeps_last[where P = P, OF ne lcs]
    have d: "dropWhile P cs \<noteq> []" "last (dropWhile P cs) = last cs" by simp_all
    have "length (dropWhile P cs) < length s" using length_dropWhile_le[of P cs] by (simp add: s)
    with 1(1) d lcs
    have IH: "collapse_runs P k rep (dropWhile P cs) \<noteq> []
        \<and> last (collapse_runs P k rep (dropWhile P cs)) = last cs" by simp
    have "collapse_runs P k rep (c # cs) = rep @ collapse_runs P k rep (dropWhile P cs)"
      using True by (intro collapse_runs_match) simp_all
    with IH ne show ?thesis by (simp add: s del: collapse_runs.simps)
  next
    case False
    have e: "collapse_runs P k rep (c # cs) = c # collapse_runs P k rep cs"
      by (rule collapse_runs_skip[OF False])
    show ?thesis
    proof (cases cs)
      case Nil with e show ?thesis by (simp add: s)
    next
      case (Cons d ds)
      then have "\<not> P (last cs)" using 1(3) s by simp
      moreover have "length cs < length s" by (simp add: s)
      ultimately have "collapse_runs P k rep cs \<noteq> [] \<and> last (collapse_runs P k rep cs) = last cs"
        using 1(1) Cons by blast
      with e Cons show ?thesis by (simp add: s del: collapse_runs.simps)
    qed
  qed
qed

lemma collapse_runs_hd_visible:
  assumes "s \<noteq> []" "\<not> P (hd s)"
  shows "collapse_runs P k rep s \<noteq> [] \<and> hd (collapse_runs P k rep s) = hd s"
proof -
  obtain c cs where s: "s = c # cs" using assms(1) by (cases s) auto
  have "collapse_runs P k rep (c # cs) = c # collapse_runs P k rep cs"
    by (rule collapse_runs_skip) (use assms(2) s in simp)
  then show ?thesis by (simp add: s del: collapse_runs.simps)
qed

lemma lstrip_append_visible:
  "a \<noteq> [] \<Longrightarrow> \<not> is_space (last a) \<Longrightarrow> lstrip (a @ x) = lstrip a @ x"
  unfolding lstrip_def by (rule dropWhile_append1[of "last a"]) simp_all

lemma rstrip_append_visible:
  assumes "b \<noteq> []" "\<not> is_space (hd b)"
  shows "rstrip (y @ b) = y @ rstrip b"
proof -
  have "hd b \<in> set (rev b)" using assms(1) by simp
  then have "dropWhile is_space (rev b @ rev y) = dropWhile is_space (rev b) @ rev y"
    using assms(2) by (rule dropWhile_append1)
  then show ?thesis by (simp add: rstrip_def)
qed

lemma strip_visible_last:
  assumes "a \<noteq> []" "\<not> is_space (last a)"
  shows "strip a = lstrip a" "lstrip a \<noteq> []" "last (lstrip a) = last a"
proof -
  from dropWhile_keeps_last[where P = is_space, OF assms]
  show d: "lstrip a \<noteq> []" "last (lstrip a) = last a" by (simp_all add: lstrip_def)
  show "strip a = lstrip a" unfolding strip_def by (rule rstrip_id) (use d assms(2) in simp)
qed

lemma strip_visible_hd:
  assumes "b \<noteq> []" "\<not> is_space (hd b)"
  shows "strip b = rstrip b"
  using assms by (cases b) (simp_all add: strip_def lstrip_def)

lemma strip_between:
  assumes "a \<noteq> []" "\<not> is_space (last a)" "b \<noteq> []" "\<not> is_space (hd b)"
  shows "strip (a @ m @ b) = strip a @ m @ strip b"
proof -
  have "lstrip (a @ (m @ b)) = lstrip a @ (m @ b)" by (rule lstrip_append_visible[OF assms(1,2)])
  then have "strip (a @ m @ b) = rstrip ((lstrip a @ m) @ b)" by (simp add: strip_def)
  also have "\<dots> = (lstrip a @ m) @ rstrip b" by (rule rstrip_append_visible[OF assms(3,4)])
  finally show ?thesis
    by (simp add: strip_visible_last(1)[OF assms(1,2)] strip_visible_hd[OF assms(3,4)])
qed

lemma minimal_clean_stages:
  "minimal_clean nfkc t =
     strip (collapse_runs is_hspace 2 '' ''
       (collapse_runs (\<lambda>c. c = NL) 4 [NL, NL]
         (rstrip_lines (hyphen_join (nfkc (filter (\<lambda>c. c \<noteq> CHR 0x00) t))))))"
  by (simp only: minimal_clean_direct rstrip_lines_def)

text \<open>
  Claim C2, amended.  Let a run of \<open>n \<ge> 1\<close> newlines stand between a text \<open>u\<close> that ends in a
  visible (non-whitespace) character other than a hyphen and a text \<open>v\<close> that begins with
  a visible character other than a hyphen, where \<open>u\<close>, \<open>v\<close> and the whole input are free of
  null characters and unchanged by NFKC.  Then the normalizer returns the normalized
  \<open>u\<close>, the run, and the normalized \<open>v\<close>, and the run is kept when \<open>n\<close> is at most 3 (up to
  two blank lines) and becomes exactly 2 newlines (one blank line) when \<open>n\<close> is 4 or more.
\<close>

theorem newline_runs_boundary:
  assumes u: "u \<noteq> []" "\<not> is_space (last u)" "last u \<noteq> CHR ''-''"
      and v: "v \<noteq> []" "\<not> is_space (hd v)" "hd v \<noteq> CHR ''-''"
      and n: "0 < n"
      and z: "\<forall>c\<in>set (u @ v). c \<noteq> CHR 0x00"
      and k: "nfkc u = u" "nfkc v = v" "nfkc (u @ replicate n NL @ v) = u @ replicate n NL @ v"
  shows "minimal_clean nfkc (u @ replicate n NL @ v)
           = minimal_clean nfkc u @ replicate (if 4 \<le> n then 2 else n) NL @ minimal_clean nfkc v"
proof -
  define m where "m = (if 4 \<le> n then 2 else n)"
  have m: "0 < m" using n by (simp add: m_def)
  have nz: "CHR 0x00 \<noteq> NL" by (simp add: NL_def)
  have fu: "filter (\<lambda>c. c \<noteq> CHR 0x00) u = u" and fv: "filter (\<lambda>c. c \<noteq> CHR 0x00) v = v"
    using z by (auto simp: filter_id_conv)
  have ft: "filter (\<lambda>c. c \<noteq> CHR 0x00) (u @ replicate n NL @ v) = u @ replicate n NL @ v"
    using fu fv nz by simp
  define u3 where "u3 = hyphen_join u"
  define v3 where "v3 = hyphen_join v"
  have s3: "hyphen_join (u @ replicate n NL @ v) = u3 @ replicate n NL @ v3"
    unfolding u3_def v3_def
    by (simp add: hyphen_join_append_visible[OF u] hyphen_join_newlines[OF v(1)])
  have u3: "u3 \<noteq> []" "\<not> is_space (last u3)"
    using hyphen_join_last[OF u(1,2)] u(2) by (simp_all add: u3_def)
  have v3: "v3 \<noteq> []" "\<not> is_space (hd v3)"
    using hyphen_join_hd[OF v(1,3)] v(2) by (simp_all add: v3_def)
  define u4 where "u4 = rstrip_lines u3"
  define v4 where "v4 = rstrip_lines v3"
  have nlb: "\<not> is_linebreak (last u3)" using u3(2) linebreak_space by blast
  have s4: "rstrip_lines (u3 @ replicate n NL @ v3) = u4 @ replicate n NL @ v4"
    unfolding u4_def v4_def by (rule rstrip_lines_run[OF u3(1) nlb v3(1) n])
  have u4: "u4 \<noteq> []" "\<not> is_space (last u4)"
    using rstrip_lines_last[OF u3] u3(2) by (simp_all add: u4_def)
  have v4: "v4 \<noteq> []" "\<not> is_space (hd v4)"
    using rstrip_lines_hd[OF v3] v3(2) by (simp_all add: v4_def)
  define u5 where "u5 = collapse_runs (\<lambda>c. c = NL) 4 [NL, NL] u4"
  define v5 where "v5 = collapse_runs (\<lambda>c. c = NL) 4 [NL, NL] v4"
  have lu4: "last u4 \<noteq> NL" using u4(2) is_space_NL by metis
  have hv4: "hd v4 \<noteq> NL" using v4(2) is_space_NL by metis
  have run5: "collapse_runs (\<lambda>c. c = NL) 4 [NL, NL] (replicate n NL @ v4) = replicate m NL @ v5"
  proof (cases "4 \<le> n")
    case True
    have "collapse_runs (\<lambda>c. c = NL) 4 [NL, NL] (replicate n NL @ v4)
        = [NL, NL] @ collapse_runs (\<lambda>c. c = NL) 4 [NL, NL] v4"
      by (rule collapse_runs_long_run) (use hv4 True in simp_all)
    moreover have "replicate m NL = [NL, NL]" using True by (simp add: m_def numeral_2_eq_2)
    ultimately show ?thesis by (simp add: v5_def)
  next
    case False
    have "collapse_runs (\<lambda>c. c = NL) 4 [NL, NL] (replicate n NL @ v4)
        = replicate n NL @ collapse_runs (\<lambda>c. c = NL) 4 [NL, NL] v4"
      by (rule collapse_runs_short_run) (use hv4 False in simp_all)
    with False show ?thesis by (simp add: v5_def m_def)
  qed
  have s5: "collapse_runs (\<lambda>c. c = NL) 4 [NL, NL] (u4 @ replicate n NL @ v4) = u5 @ replicate m NL @ v5"
    unfolding u5_def using collapse_runs_append[of u4 "\<lambda>c. c = NL" 4 "[NL, NL]" "replicate n NL @ v4"] lu4 run5
    by simp
  have u5: "u5 \<noteq> []" "\<not> is_space (last u5)"
    using collapse_runs_last[of u4 "\<lambda>c. c = NL" 4 "[NL, NL]"] u4 lu4 by (simp_all add: u5_def)
  have v5: "v5 \<noteq> []" "\<not> is_space (hd v5)"
    using collapse_runs_hd_visible[of v4 "\<lambda>c. c = NL" 4 "[NL, NL]"] v4 hv4 by (simp_all add: v5_def)
  define u6 where "u6 = collapse_runs is_hspace 2 '' '' u5"
  define v6 where "v6 = collapse_runs is_hspace 2 '' '' v5"
  have lu5: "\<not> is_hspace (last u5)" using u5(2) hspace_space by blast
  have hv5: "\<not> is_hspace (hd v5)" using v5(2) hspace_space by blast
  have "collapse_runs is_hspace 2 '' '' (replicate m NL @ v5) = replicate m NL @ v6"
    unfolding v6_def by (rule collapse_runs_prefix) simp
  then have s6: "collapse_runs is_hspace 2 '' '' (u5 @ replicate m NL @ v5) = u6 @ replicate m NL @ v6"
    unfolding u6_def using collapse_runs_append[of u5 is_hspace 2 "'' ''" "replicate m NL @ v5"] lu5
    by simp
  have u6: "u6 \<noteq> []" "\<not> is_space (last u6)"
    using collapse_runs_last[of u5 is_hspace 2 "'' ''"] u5 lu5 by (simp_all add: u6_def)
  have v6: "v6 \<noteq> []" "\<not> is_space (hd v6)"
    using collapse_runs_hd_visible[of v5 is_hspace 2 "'' ''"] v5 hv5 by (simp_all add: v6_def)
  have s7: "strip (u6 @ replicate m NL @ v6) = strip u6 @ replicate m NL @ strip v6"
    by (rule strip_between[OF u6 v6])
  have mu: "minimal_clean nfkc u = strip u6"
    by (simp only: minimal_clean_stages fu k(1) u3_def[symmetric] u4_def[symmetric] u5_def[symmetric] u6_def[symmetric])
  have mv: "minimal_clean nfkc v = strip v6"
    by (simp only: minimal_clean_stages fv k(2) v3_def[symmetric] v4_def[symmetric] v5_def[symmetric] v6_def[symmetric])
  have "minimal_clean nfkc (u @ replicate n NL @ v) = strip u6 @ replicate m NL @ strip v6"
    by (simp only: minimal_clean_stages ft k(3) s3 s4 s5 s6 s7)
  then show ?thesis by (simp only: mu mv m_def)
qed

theorem newline_runs_boundary_witness:
  "minimal_clean id (''Pasal 1\<newline>(1)  satu;'' @ replicate 3 NL @ ''(2) dua-\<newline>belas'')
     = ''Pasal 1\<newline>(1) satu;'' @ replicate 3 NL @ ''(2) duabelas''
   \<and> minimal_clean id (''Pasal 1\<newline>(1)  satu;'' @ replicate 5 NL @ ''(2) dua-\<newline>belas'')
     = ''Pasal 1\<newline>(1) satu;'' @ replicate 2 NL @ ''(2) duabelas''"
proof -
  let ?u = "''Pasal 1\<newline>(1)  satu;''" and ?v = "''(2) dua-\<newline>belas''"
  have u: "?u \<noteq> []" "\<not> is_space (last ?u)" "last ?u \<noteq> CHR ''-''" by (simp_all add: is_space_def)
  have v: "?v \<noteq> []" "\<not> is_space (hd ?v)" "hd ?v \<noteq> CHR ''-''" by (simp_all add: is_space_def)
  have z: "\<forall>c\<in>set (?u @ ?v). c \<noteq> CHR 0x00" by simp
  have k: "id ?u = ?u" "id ?v = ?v" "id (?u @ replicate n NL @ ?v) = ?u @ replicate n NL @ ?v" for n
    by simp_all
  have mu: "minimal_clean id ?u = ''Pasal 1\<newline>(1) satu;''" by code_simp
  have mv: "minimal_clean id ?v = ''(2) duabelas''" by code_simp
  from newline_runs_boundary[of ?u ?v 3 id, OF u v _ z k]
    newline_runs_boundary[of ?u ?v 5 id, OF u v _ z k]
  show ?thesis unfolding mu mv by simp
qed


section \<open>Nearest preceding marker of the text\<close>

lemma splitlines_plain:
  "l \<noteq> [] \<Longrightarrow> \<forall>c\<in>set l. \<not> is_linebreak c \<Longrightarrow> splitlines l = [l]"
proof (induction l)
  case Nil then show ?case by simp
next
  case (Cons c l)
  have c: "\<not> is_linebreak c" using Cons.prems(2) by simp
  show ?case
  proof (cases l)
    case Nil with c show ?thesis by simp
  next
    case (Cons d cs)
    with Cons.IH Cons.prems(2) have "splitlines (d # cs) = [d # cs]" by simp
    moreover have "c \<noteq> CR" using c is_linebreak_CR by auto
    ultimately show ?thesis using c Cons by simp
  qed
qed

lemma splitlines_line:
  assumes "\<forall>c\<in>set l. \<not> is_linebreak c" and "is_linebreak b"
      and "rest = [] \<or> \<not> crlf b (hd rest)"
  shows "splitlines (l @ b # rest) = l # splitlines rest"
  using assms(1)
proof (induction l)
  case Nil
  show ?case
  proof (cases rest)
    case Nil then show ?thesis using assms(2) by simp
  next
    case (Cons d cs)
    with assms(3) have "\<not> (b = CR \<and> d = NL)" by (simp add: crlf_def)
    with Cons assms(2) show ?thesis by auto
  qed
next
  case (Cons c l)
  then have IH: "splitlines (l @ b # rest) = l # splitlines rest" by simp
  obtain d cs where dc: "l @ b # rest = d # cs" by (cases "l @ b # rest") auto
  have c: "\<not> is_linebreak c" using Cons.prems by simp
  then have "c \<noteq> CR" using is_linebreak_CR by auto
  with c IH dc show ?case by simp
qed

lemma concat_map_filter_if:
  "concat (map (\<lambda>p. if P p then f p else []) xs) = concat (map f (filter P xs))"
  by (induction xs) auto

lemma line_at_0_plain: "\<forall>c\<in>set l. \<not> is_linebreak c \<Longrightarrow> is_linebreak b \<Longrightarrow> line_at (l @ b # rest) 0 = l"
  by (simp add: line_at_def takeWhile_tail)

lemma lines_with_offsets:
  "no_pair crlf t \<Longrightarrow>
     zip (line_starts pos (splitlines t)) (splitlines t) =
       map (\<lambda>p. (pos + p, line_at t p)) (filter (line_begins_at t) [0 ..< length t])"
proof (induction t arbitrary: pos rule: length_induct)
  case (1 t)
  define l where "l = takeWhile (\<lambda>c. \<not> is_linebreak c) t"
  define r where "r = dropWhile (\<lambda>c. \<not> is_linebreak c) t"
  have t: "t = l @ r" by (simp add: l_def r_def)
  have l: "\<forall>c\<in>set l. \<not> is_linebreak c" unfolding l_def using set_takeWhileD by fastforce
  have inl: "\<not> line_begins_at t p" if "1 \<le> p" "p \<le> length l" for p
  proof -
    have "p - 1 < length l" using that by arith
    then have "t ! (p - 1) = l ! (p - 1)" by (simp add: t nth_append)
    moreover have "l ! (p - 1) \<in> set l" using that by simp
    ultimately show ?thesis using l that by (auto simp: line_begins_at_def)
  qed
  show ?case
  proof (cases r)
    case Nil
    show ?thesis
    proof (cases "t = []")
      case True then show ?thesis by simp
    next
      case False
      with Nil t have tl: "t = l" "l \<noteq> []" by simp_all
      have sp: "splitlines t = [t]" using splitlines_plain[OF tl(2) l] tl(1) by simp
      have la: "line_at t 0 = t" using l tl(1) by (simp add: line_at_def)
      have "[0..<length t] = 0 # [1..<length t]" using False by (simp add: upt_rec)
      moreover have "filter (line_begins_at t) [1..<length t] = []"
        using inl tl(1) by (auto simp: filter_empty_conv)
      moreover have "line_begins_at t 0" using False by (simp add: line_begins_at_def)
      ultimately have "filter (line_begins_at t) [0..<length t] = [0]" by simp
      then show ?thesis by (simp add: sp la)
    qed
  next
    case (Cons b t')
    have b: "is_linebreak b"
    proof -
      have "r \<noteq> []" using Cons by simp
      then have "\<not> \<not> is_linebreak (hd r)" unfolding r_def by (rule hd_dropWhile)
      with Cons show ?thesis by simp
    qed
    have tt: "t = l @ b # t'" using t Cons by simp
    from 1(2) have np: "no_pair crlf (b # t')" unfolding tt by (metis append_eq_conv_conj no_pair_drop)
    then have np': "no_pair crlf t'" by (simp add: no_pair_Cons)
    have nc: "t' = [] \<or> \<not> crlf b (hd t')" using np by (simp add: no_pair_Cons)
    have sp: "splitlines t = l # splitlines t'" unfolding tt by (rule splitlines_line[OF l b nc])
    have len: "length t' < length t" by (simp add: tt)
    from 1(1) len np' have IH: "zip (line_starts (Suc (pos + length l)) (splitlines t')) (splitlines t') =
       map (\<lambda>p. (Suc (pos + length l) + p, line_at t' p)) (filter (line_begins_at t') [0 ..< length t'])"
      by blast
    have la: "line_at t 0 = l" unfolding tt by (rule line_at_0_plain[OF l b])
    have lb0: "line_begins_at t 0" by (simp add: line_begins_at_def tt)
    have shift_b: "line_begins_at t (Suc (length l) + q) = line_begins_at t' q" for q
    proof (cases q)
      case 0
      show ?thesis
      proof (cases t')
        case Nil then show ?thesis by (simp add: 0 tt line_begins_at_def)
      next
        case (Cons d cs)
        with nc have "\<not> crlf b d" by simp
        with b Cons show ?thesis by (simp add: 0 tt line_begins_at_def nth_append)
      qed
    next
      case (Suc q')
      then show ?thesis by (simp add: tt line_begins_at_def nth_append)
    qed
    have shift_l: "line_at t (Suc (length l + q)) = line_at t' q" for q
      by (simp add: tt line_at_def)
    have shift_b': "line_begins_at t (Suc (length l + q)) = line_begins_at t' q" for q
      using shift_b[of q] by simp
    have up: "[0..<length t] = 0 # [1..<Suc (length l)] @ map (\<lambda>q. Suc (length l + q)) [0..<length t']"
    proof -
      have lt: "length t = Suc (length l) + length t'" by (simp add: tt)
      have "[0..<length t] = [0..<Suc (length l)] @ [Suc (length l)..<Suc (length l) + length t']"
        unfolding lt by (rule upt_add_eq_append) simp
      moreover have "[0..<Suc (length l)] = 0 # [1..<Suc (length l)]" by (simp add: upt_rec)
      moreover have "[Suc (length l)..<Suc (length l) + length t'] = map (\<lambda>q. Suc (length l + q)) [0..<length t']"
        using map_add_upt[of "Suc (length l)" "length t'"] by (simp add: add.commute)
      ultimately show ?thesis by (simp del: upt_Suc)
    qed
    have f1: "filter (line_begins_at t) [1..<Suc (length l)] = []"
      using inl by (auto simp: filter_empty_conv)
    have f2: "filter (line_begins_at t) (map (\<lambda>q. Suc (length l + q)) [0..<length t'])
         = map (\<lambda>q. Suc (length l + q)) (filter (line_begins_at t') [0..<length t'])"
      by (simp add: filter_map o_def shift_b')
    have "filter (line_begins_at t) [0..<length t]
        = 0 # map (\<lambda>q. Suc (length l + q)) (filter (line_begins_at t') [0..<length t'])"
      unfolding up using lb0 f1 f2 by (simp del: upt_Suc)
    then show ?thesis by (simp add: sp IH la shift_l o_def)
  qed
qed

lemma marks_are_markers_in_text:
  assumes "no_pair crlf t"
  shows "marks kind re (splitlines t) = markers_in_text kind re t"
proof -
  have "markers_in_text kind re t =
      concat (map (\<lambda>p. if line_begins_at t p then mark_of_line kind re (p, line_at t p) else [])
        [0 ..< length t])"
    unfolding markers_in_text_def mark_of_line_def fst_conv snd_conv by (rule refl)
  also have "\<dots> =
      concat (map (\<lambda>p. mark_of_line kind re (p, line_at t p)) (filter (line_begins_at t) [0 ..< length t]))"
    by (rule concat_map_filter_if)
  also have "\<dots> = concat (map (mark_of_line kind re)
        (map (\<lambda>p. (0 + p, line_at t p)) (filter (line_begins_at t) [0 ..< length t])))"
    by (simp add: o_def)
  also have "\<dots> = marks kind re (splitlines t)"
    unfolding marks_def by (simp only: lines_with_offsets[OF assms, of 0])
  finally show ?thesis by simp
qed

text \<open>
  Claim C3, as stated, fails on a text with \<open>\r\n\<close> line ends: structure detection counts
  one character for every line break, so the offsets it records fall behind.  In
  \<open>crlf_text\<close> the article header starts at offset 24 and the only chapter heading begins
  at offset 33, after it; yet the block is given that chapter.
\<close>

theorem crlf_marker_counterexample:
  "fst (pasal_matches crlf_text ! 0) = 24
   \<and> markers_in_text ''BAB'' BAB_RE crlf_text = [(33, ''BAB'', ''I'', [])]
   \<and> b_bab (detect_structure crlf_text ! 0) = Some (''BAB'', ''I'', [])
   \<and> \<not> nearest_at_or_before (fst (pasal_matches crlf_text ! 0))
         (markers_in_text ''BAB'' BAB_RE crlf_text) (b_bab (detect_structure crlf_text ! 0))"
proof -
  have 1: "fst (pasal_matches crlf_text ! 0) = 24" by code_simp
  have 2: "markers_in_text ''BAB'' BAB_RE crlf_text = [(33, ''BAB'', ''I'', [])]" by code_simp
  have 3: "b_bab (detect_structure crlf_text ! 0) = Some (''BAB'', ''I'', [])" by code_simp
  show ?thesis unfolding 1 2 3 by (simp add: nearest_at_or_before_def)
qed

text \<open>
  Claim C3, amended.  For every text in which no carriage return is directly followed by
  a newline, and every detected block, the book, chapter and section tag of the block is
  the tag of the marker of that family with the greatest offset at or before the block's
  start (a marker at the start itself counts), and null when the family has no marker at
  or before the start.  The markers are those of the text: the lines that the family's
  pattern matches, each at the offset where its line begins.
\<close>

theorem block_markers_are_nearest_preceding:
  assumes "no_pair crlf t" and "i < length (detect_structure t)"
  shows "nearest_at_or_before (fst (pasal_matches t ! i)) (markers_in_text ''BUKU'' BUKU_RE t)
           (b_buku (detect_structure t ! i))
       \<and> nearest_at_or_before (fst (pasal_matches t ! i)) (markers_in_text ''BAB'' BAB_RE t)
           (b_bab (detect_structure t ! i))
       \<and> nearest_at_or_before (fst (pasal_matches t ! i)) (markers_in_text ''BAGIAN'' BAGIAN_RE t)
           (b_bagian (detect_structure t ! i))"
proof -
  from assms(2) have i: "i < length (pasal_matches t)" by simp
  then have z: "zip (pasal_matches t) (block_spans t) ! i = (pasal_matches t ! i, block_spans t ! i)"
    by simp
  have s: "fst (block_spans t ! i) = fst (pasal_matches t ! i)" using i by (rule fst_block_spans_nth)
  have "b_buku (detect_structure t ! i) = nearest_tag (fst (pasal_matches t ! i)) (marks ''BUKU'' BUKU_RE (splitlines t))"
    "b_bab (detect_structure t ! i) = nearest_tag (fst (pasal_matches t ! i)) (marks ''BAB'' BAB_RE (splitlines t))"
    "b_bagian (detect_structure t ! i) = nearest_tag (fst (pasal_matches t ! i)) (marks ''BAGIAN'' BAGIAN_RE (splitlines t))"
    using i z s by (simp_all add: detect_structure_def Let_def split_beta)
  moreover have "nearest_at_or_before idx (markers_in_text kind re t)
      (nearest_tag idx (marks kind re (splitlines t)))" for idx kind re
    using nearest_tag_correct[OF marks_sorted, of idx kind re "splitlines t"]
    by (simp only: marks_are_markers_in_text[OF assms(1)])
  ultimately show ?thesis by simp
qed

theorem block_markers_are_nearest_preceding_witness:
  "no_pair crlf ''BAB I\<newline>Pasal 1\<newline>BAB II\<newline>Pasal 2''
   \<and> 1 < length (detect_structure ''BAB I\<newline>Pasal 1\<newline>BAB II\<newline>Pasal 2'')
   \<and> markers_in_text ''BAB'' BAB_RE ''BAB I\<newline>Pasal 1\<newline>BAB II\<newline>Pasal 2''
       = [(0, ''BAB'', ''I'', []), (14, ''BAB'', ''II'', [])]
   \<and> fst (pasal_matches ''BAB I\<newline>Pasal 1\<newline>BAB II\<newline>Pasal 2'' ! 1) = 21
   \<and> b_bab (detect_structure ''BAB I\<newline>Pasal 1\<newline>BAB II\<newline>Pasal 2'' ! 1) = Some (''BAB'', ''II'', [])
   \<and> nearest_at_or_before (fst (pasal_matches ''BAB I\<newline>Pasal 1\<newline>BAB II\<newline>Pasal 2'' ! 1))
        (markers_in_text ''BAB'' BAB_RE ''BAB I\<newline>Pasal 1\<newline>BAB II\<newline>Pasal 2'')
        (b_bab (detect_structure ''BAB I\<newline>Pasal 1\<newline>BAB II\<newline>Pasal 2'' ! 1))
   \<and> nearest_at_or_before (fst (pasal_matches ''BAB I\<newline>Pasal 1\<newline>BAB II\<newline>Pasal 2'' ! 1))
        (markers_in_text ''BUKU'' BUKU_RE ''BAB I\<newline>Pasal 1\<newline>BAB II\<newline>Pasal 2'')
        (b_buku (detect_structure ''BAB I\<newline>Pasal 1\<newline>BAB II\<newline>Pasal 2'' ! 1))"
proof -
  have h0: "no_pair crlf ''BAB I\<newline>Pasal 1\<newline>BAB II\<newline>Pasal 2''" by code_simp
  have h: "1 < length (detect_structure ''BAB I\<newline>Pasal 1\<newline>BAB II\<newline>Pasal 2'')" by code_simp
  have m: "markers_in_text ''BAB'' BAB_RE ''BAB I\<newline>Pasal 1\<newline>BAB II\<newline>Pasal 2''
       = [(0, ''BAB'', ''I'', []), (14, ''BAB'', ''II'', [])]" by code_simp
  have p: "fst (pasal_matches ''BAB I\<newline>Pasal 1\<newline>BAB II\<newline>Pasal 2'' ! 1) = 21" by code_simp
  have b: "b_bab (detect_structure ''BAB I\<newline>Pasal 1\<newline>BAB II\<newline>Pasal 2'' ! 1) = Some (''BAB'', ''II'', [])"
    by code_simp
  from block_markers_are_nearest_preceding[OF h0 h] h0 h m p b show ?thesis by blast
qed


section \<open>The header patterns as a parse of the text\<close>

lemma ci_prefix_Nil [simp]: "ci_prefix [] x" by (simp add: ci_prefix_def)

lemma ci_prefix_Cons:
  "ci_prefix (p # ps) x \<longleftrightarrow> (\<exists>c cs. x = c # cs \<and> ci_eq p c \<and> ci_prefix ps cs)"
  by (cases x) (auto simp: ci_prefix_def)

lemma skip_Cons_1: "skip (Suc 0) (b, c # cs) = (c = NL, cs)" by (simp add: skip_def)

lemma skip_add: "j1 \<le> length (snd cur) \<Longrightarrow> skip (j1 + j2) cur = skip j2 (skip j1 cur)"
  by (simp add: skip_skip)

lemma ends_lit_ci:
  "ends (lit_ci w) cur = (if ci_prefix w (snd cur) then [skip (length w) cur] else [])"
proof (induction w arbitrary: cur)
  case Nil show ?case by simp
next
  case (Cons p ps)
  obtain b s where cur: "cur = (b, s)" by (cases cur)
  show ?case
  proof (cases s)
    case Nil with cur show ?thesis by (simp add: ci_prefix_Cons)
  next
    case (Cons c cs)
    show ?thesis
    proof (cases "ci_eq p c")
      case True
      have "skip (length (p # ps)) cur = skip (length ps) (skip 1 cur)"
        using cur Cons skip_add[of "Suc 0" cur "length ps"] by simp
      with True cur Cons Cons.IH[of "(c = NL, cs)"] show ?thesis
        by (simp add: ci_prefix_Cons skip_Cons_1)
    next
      case False with cur Cons show ?thesis by (simp add: ci_prefix_Cons)
    qed
  qed
qed

lemma concat_map_Nil: "(\<And>x. x \<in> set xs \<Longrightarrow> f x = []) \<Longrightarrow> concat (map f xs) = []"
  by (induction xs) auto

text \<open>A greedy repetition before a continuation that cannot start with a character of
  the class: only the longest run is tried with success.\<close>

lemma concat_Rep_reject:
  assumes rej: "\<And>b c cs. P c \<Longrightarrow> X (b, c # cs) = []"
  shows "concat (map X (ends (Rep P k) cur)) =
     (if k \<le> length (takeWhile P (snd cur)) then X (skip (length (takeWhile P (snd cur))) cur) else [])"
proof -
  let ?n = "length (takeWhile P (snd cur))"
  have short: "X (skip j cur) = []" if "j < ?n" for j
  proof -
    have jl: "j < length (snd cur)" using that length_takeWhile_le[of P "snd cur"] by simp
    have "snd cur ! j = takeWhile P (snd cur) ! j" using that by (simp add: takeWhile_nth)
    then have pj: "P (snd cur ! j)" using that by (metis nth_mem set_takeWhileD)
    have "snd (skip j cur) = snd cur ! j # drop (Suc j) (snd cur)"
      using jl by (simp add: Cons_nth_drop_Suc)
    then have "skip j cur = (fst (skip j cur), snd cur ! j # drop (Suc j) (snd cur))"
      by (metis prod.collapse)
    then show ?thesis using rej[OF pj] by metis
  qed
  show ?thesis
  proof (cases "k \<le> ?n")
    case True
    have "concat (map X (map (\<lambda>j. skip j cur) (rev [k..<?n]))) = []"
      by (rule concat_map_Nil) (auto simp: short)
    with True show ?thesis by simp
  next
    case False then show ?thesis by simp
  qed
qed

lemma concat_map_concat_map:
  "concat (map F (concat xss)) = concat (map (\<lambda>xs. concat (map F xs)) xss)"
  by (induction xss) auto

lemma ends_parts_Seq:
  "ends_parts (Seq A B # rs) cur = concat (map (\<lambda>a. ends_parts (B # rs) a) (ends A cur))"
  by (simp add: concat_map_concat_map o_def)


lemma digit_not_space: "is_digit c \<Longrightarrow> \<not> is_space c"
  by (auto simp: is_digit_def is_space_def)

lemma digit_not_alpha: "is_digit c \<Longrightarrow> \<not> is_alpha c"
  by (auto simp: is_digit_def is_alpha_def is_upper_def is_lower_def)

lemma alpha_not_space: "is_alpha c \<Longrightarrow> \<not> is_space c"
  by (auto simp: is_alpha_def is_upper_def is_lower_def is_space_def)

lemma roman_alpha: "ci_in ''IVXLCM'' c \<Longrightarrow> is_alpha c"
  by (auto simp: ci_in_def ci_eq_def to_lower_def is_alpha_def is_upper_def is_lower_def
      split: option.splits if_splits)

lemma roman_not_space: "ci_in ''IVXLCM'' c \<Longrightarrow> \<not> is_space c"
  using roman_alpha alpha_not_space by blast

lemma digit_not_roman: "is_digit c \<Longrightarrow> \<not> ci_in ''IVXLCM'' c"
  using roman_alpha digit_not_alpha by blast

lemma NL_space: "is_space NL" by (simp add: is_space_def NL_def)

lemma concat_map_if: "concat (map (\<lambda>j. if Q j then [f j] else []) js) = map f (filter Q js)"
  by (induction js) auto

lemma ends_Eol: "ends Eol cur = (if snd cur = [] \<or> hd (snd cur) = NL then [cur] else [])"
  by (cases "snd cur") auto

lemma ends_trail:
  "ends (Seq (Rep is_space 0) Eol) c = map (\<lambda>j. skip j c) (trail_js (snd c))"
proof -
  let ?n = "length (takeWhile is_space (snd c))"
  have "ends (Seq (Rep is_space 0) Eol) c
      = concat (map (\<lambda>j. ends Eol (skip j c)) (rev [0..<Suc ?n]))"
    by (simp add: o_def del: upt_Suc ends.simps(2))
  also have "\<dots> = concat (map (\<lambda>j. if drop j (snd c) = [] \<or> snd c ! j = NL then [skip j c] else [])
       (rev [0..<Suc ?n]))"
  proof (rule arg_cong[where f = concat], rule map_cong[OF refl])
    fix j assume "j \<in> set (rev [0..<Suc ?n])"
    show "ends Eol (skip j c) = (if drop j (snd c) = [] \<or> snd c ! j = NL then [skip j c] else [])"
    proof (cases "drop j (snd c) = []")
      case True then show ?thesis by (simp add: ends_Eol del: ends.simps)
    next
      case False
      then have "j < length (snd c)" by simp
      then have "hd (drop j (snd c)) = snd c ! j" by (simp add: hd_drop_conv_nth)
      with False show ?thesis by (simp add: ends_Eol del: ends.simps)
    qed
  qed
  also have "\<dots> = map (\<lambda>j. skip j c) (trail_js (snd c))"
    unfolding trail_js_def by (rule concat_map_if)
  finally show ?thesis .
qed

lemma trail_js_nonspace:
  assumes "\<not> is_space x"
  shows "trail_js (x # xs) = []"
proof -
  from assms NL_space have "x \<noteq> NL" by auto
  with assms show ?thesis by (simp add: trail_js_def)
qed

lemma trail_js_le: "j \<in> set (trail_js s) \<Longrightarrow> j \<le> length (takeWhile is_space s)"
  by (auto simp add: trail_js_def simp del: upt_Suc)

text \<open>Part 3 after a group: the continuation used below.\<close>

lemma tail_reject:
  assumes "\<not> is_space x"
  shows "map ((#) g) (ends_parts [Seq (Rep is_space 0) Eol] (b, x # xs)) = []"
  by (simp only: ends_parts_single ends_trail snd_conv trail_js_nonspace[OF assms] list.map)

lemma skip_Suc_0: "snd cur = x # xs \<Longrightarrow> skip (Suc 0) cur = (x = NL, xs)"
  by (simp add: skip_def)

lemma ends_Cls_skip:
  "ends (Cls P) cur = (if snd cur \<noteq> [] \<and> P (hd (snd cur)) then [skip (Suc 0) cur] else [])"
  by (cases "snd cur") (auto simp: skip_def)

lemma takeWhile_hd_Nil: "s \<noteq> [] \<Longrightarrow> \<not> P (hd s) \<Longrightarrow> takeWhile P s = []"
  by (cases s) auto

lemma takeWhile_pos_hd: "1 \<le> length (takeWhile P s) \<Longrightarrow> s \<noteq> [] \<and> P (hd s)"
  by (cases s) (auto split: if_splits)

lemma ends_parts_label_any:
  fixes c :: cursor
  defines "T \<equiv> Seq (Rep is_space 0) Eol"
  defines "ll \<equiv> label_len (snd c)"
  shows "ends_parts [Alt (Seq (Rep is_digit 1) (Opt (Cls is_alpha))) (Rep (ci_in ''IVXLCM'') 1), T] c =
     (if 1 \<le> ll then map ((#) (skip ll c)) (ends_parts [T] (skip ll c)) else [])"
proof -
  define F where "F = (\<lambda>g. map ((#) g) (ends_parts [T] g))"
  define X where "X = (\<lambda>d. concat (map F (ends (Opt (Cls is_alpha)) d)))"
  let ?s = "snd c"
  let ?nd = "length (takeWhile is_digit ?s)"
  let ?nr = "length (takeWhile (ci_in ''IVXLCM'') ?s)"
  have Frej: "F (b, x # xs) = []" if "\<not> is_space x" for b x xs
    unfolding F_def T_def by (rule tail_reject[OF that])
  have Xrej: "X (b, x # xs) = []" if "is_digit x" for b x xs
    using that Frej[OF digit_not_space[OF that]] digit_not_alpha[OF that]
    by (simp add: X_def)
  have Frej2: "F (b, x # xs) = []" if "ci_in ''IVXLCM'' x" for b x xs
    using Frej[OF roman_not_space[OF that]] .
  have split: "ends_parts [Alt (Seq (Rep is_digit 1) (Opt (Cls is_alpha))) (Rep (ci_in ''IVXLCM'') 1), T] c
      = concat (map X (ends (Rep is_digit 1) c)) @ concat (map F (ends (Rep (ci_in ''IVXLCM'') 1) c))"
    by (simp add: F_def X_def concat_map_concat_map o_def del: ends.simps(5) ends.simps(6) ends.simps(4))
  have A1: "concat (map X (ends (Rep is_digit 1) c)) = (if 1 \<le> ?nd then X (skip ?nd c) else [])"
    by (rule concat_Rep_reject) (rule Xrej)
  have A2: "concat (map F (ends (Rep (ci_in ''IVXLCM'') 1) c)) = (if 1 \<le> ?nr then F (skip ?nr c) else [])"
    by (rule concat_Rep_reject) (rule Frej2)
  show ?thesis
  proof (cases "1 \<le> ?nd")
    case True
    then have hd: "?s \<noteq> []" "is_digit (hd ?s)" using takeWhile_pos_hd[of is_digit ?s] by simp_all
    then have nr: "?nr = 0" using takeWhile_hd_Nil[of ?s "ci_in ''IVXLCM''"] digit_not_roman by simp
    have ndl: "?nd \<le> length ?s" by (rule length_takeWhile_le)
    have X: "X (skip ?nd c) = F (skip ll c)"
    proof (cases "drop ?nd ?s")
      case Nil
      then have "ll = ?nd" using True by (simp add: ll_def label_len_def)
      moreover have "ends (Cls is_alpha) (skip ?nd c) = []" using Nil by (simp add: ends_Cls_skip del: ends.simps)
      ultimately show ?thesis by (simp add: X_def del: ends.simps(4))
    next
      case (Cons x xs)
      then have lt: "?nd < length ?s" by (metis drop_eq_Nil2 list.distinct(1) not_le)
      then have x: "?s ! ?nd = x" using Cons by (metis hd_drop_conv_nth list.sel(1))
      have sk: "skip ?nd c = (fst (skip ?nd c), x # xs)" using Cons by (metis prod.collapse snd_skip)
      show ?thesis
      proof (cases "is_alpha x")
        case al: True
        then have l: "ll = Suc ?nd" using True lt x by (simp add: ll_def label_len_def)
        have "ends (Cls is_alpha) (skip ?nd c) = [skip (Suc 0) (skip ?nd c)]"
          using al Cons by (simp add: ends_Cls_skip del: ends.simps)
        also have "skip (Suc 0) (skip ?nd c) = skip ll c" using skip_skip[OF ndl, of "Suc 0"] l by simp
        finally have e: "ends (Cls is_alpha) (skip ?nd c) = [skip ll c]" .
        have "F (skip ?nd c) = []" using Frej[OF alpha_not_space[OF al]] sk by metis
        with e show ?thesis by (simp add: X_def del: ends.simps(4))
      next
        case na: False
        then have l: "ll = ?nd" using True lt x by (simp add: ll_def label_len_def)
        have "ends (Cls is_alpha) (skip ?nd c) = []" using na Cons by (simp add: ends_Cls_skip del: ends.simps)
        with l show ?thesis by (simp add: X_def del: ends.simps(4))
      qed
    qed
    have "1 \<le> ll" using True by (simp add: ll_def label_len_def Let_def)
    with split A1 A2 True nr X show ?thesis by (simp add: F_def)
  next
    case False
    then have "ll = ?nr" by (simp add: ll_def label_len_def)
    with split A1 A2 False show ?thesis by (simp add: F_def)
  qed
qed

lemma ends_parts_label_own:
  "ends_parts [lit_ci L, T] c =
     (if ci_prefix L (snd c) then map ((#) (skip (length L) c)) (ends_parts [T] (skip (length L) c)) else [])"
  by (simp add: ends_lit_ci del: ends_parts.simps(1))


lemma to_lower_cases: "to_lower p = p \<or> is_lower (to_lower p)"
  by (simp add: to_lower_def is_lower_def)

lemma lower_not_space: "is_lower c \<Longrightarrow> \<not> is_space c"
  by (auto simp: is_lower_def is_space_def)

lemma to_lower_id: "\<not> is_upper c \<Longrightarrow> to_lower c = c"
  by (simp add: to_lower_def is_upper_def)

lemma space_not_upper: "is_space c \<Longrightarrow> \<not> is_upper c"
  by (auto simp: is_upper_def is_space_def)

lemma ci_eq_space:
  assumes "is_space c" and "ci_eq p c"
  shows "is_space p"
proof -
  have "to_lower c = c" using assms(1) space_not_upper to_lower_id by blast
  with assms(2) have tp: "to_lower p = c" by (simp add: ci_eq_def)
  from to_lower_cases[of p] show ?thesis
  proof
    assume "to_lower p = p" with tp assms(1) show ?thesis by simp
  next
    assume "is_lower (to_lower p)"
    with tp lower_not_space assms(1) show ?thesis by auto
  qed
qed

lemma ci_prefix_length: "ci_prefix w x \<Longrightarrow> length w \<le> length x"
  by (simp add: ci_prefix_def)

lemma ends_parts_keyword:
  fixes cur :: cursor
  assumes rej: "\<And>b c cs. is_space c \<Longrightarrow> ends_parts rs (b, c # cs) = []"
  defines "n1 \<equiv> length (takeWhile is_space (snd cur))"
  defines "n2 \<equiv> length (takeWhile is_space (drop (n1 + 5) (snd cur)))"
  shows "ends_parts (keyword_rx ''Pasal'' # rs) cur =
     (if fst cur \<and> ci_prefix ''Pasal'' (drop n1 (snd cur)) \<and> 1 \<le> n2
      then map ((#) (skip (n1 + 5 + n2) cur)) (ends_parts rs (skip (n1 + 5 + n2) cur)) else [])"
proof -
  define F where "F = (\<lambda>c'. map ((#) c') (ends_parts rs c'))"
  define X2 where "X2 = (\<lambda>a. ends_parts (Rep is_space 1 # rs) a)"
  define X1 where "X1 = (\<lambda>a. concat (map X2 (ends (lit_ci ''Pasal'') a)))"
  have u: "ends_parts (keyword_rx ''Pasal'' # rs) cur
      = concat (map (\<lambda>a. concat (map X1 (ends (Rep is_space 0) a))) (ends Bol cur))"
    by (simp only: keyword_rx_def ends_parts_Seq X1_def X2_def)
  have X2: "X2 a = concat (map F (ends (Rep is_space 1) a))" for a
    by (simp only: X2_def ends_parts.simps F_def)
  have Frej: "F (b, c # cs) = []" if "is_space c" for b c cs
    using rej[OF that] by (simp add: F_def)
  have X2': "X2 a = (if 1 \<le> length (takeWhile is_space (snd a))
       then F (skip (length (takeWhile is_space (snd a))) a) else [])" for a
    unfolding X2 by (rule concat_Rep_reject) (rule Frej)
  have l5: "length ''Pasal'' = 5" by simp
  have X1: "X1 a = (if ci_prefix ''Pasal'' (snd a) then X2 (skip 5 a) else [])" for a
  proof -
    have "ends (lit_ci ''Pasal'') a = (if ci_prefix ''Pasal'' (snd a) then [skip 5 a] else [])"
      by (simp only: ends_lit_ci l5)
    then show ?thesis by (simp add: X1_def del: lit_ci.simps)
  qed
  have X1rej: "X1 (b, c # cs) = []" if "is_space c" for b c cs
    using space_not_P[OF that] by (simp add: X1 ci_prefix_Cons)
  have X1': "concat (map X1 (ends (Rep is_space 0) cur)) = X1 (skip n1 cur)"
    using concat_Rep_reject[of is_space X1 0 cur, OF X1rej] by (simp add: n1_def)
  have n1: "n1 \<le> length (snd cur)" unfolding n1_def by (rule length_takeWhile_le)
  show ?thesis
  proof (cases "fst cur \<and> ci_prefix ''Pasal'' (drop n1 (snd cur)) \<and> 1 \<le> n2")
    case True
    then have len: "5 \<le> length (drop n1 (snd cur))" using ci_prefix_length by fastforce
    have s1: "skip 5 (skip n1 cur) = skip (n1 + 5) cur" by (rule skip_skip[OF n1])
    have l15: "n1 + 5 \<le> length (snd cur)" using len by simp
    have s2: "skip n2 (skip (n1 + 5) cur) = skip (n1 + 5 + n2) cur" by (rule skip_skip[OF l15])
    have "ends_parts (keyword_rx ''Pasal'' # rs) cur = X1 (skip n1 cur)"
      using True by (simp add: u X1' del: ends_parts.simps ends.simps(5))
    also have "\<dots> = X2 (skip (n1 + 5) cur)" using True by (simp add: X1 s1)
    also have "\<dots> = F (skip (n1 + 5 + n2) cur)" using True by (simp add: X2' n2_def[symmetric] s2)
    finally show ?thesis using True by (simp add: F_def del: ends_parts.simps)
  next
    case False
    have s1: "skip 5 (skip n1 cur) = skip (n1 + 5) cur" by (rule skip_skip[OF n1])
    have "ends_parts (keyword_rx ''Pasal'' # rs) cur = (if fst cur then X1 (skip n1 cur) else [])"
      by (simp add: u X1' del: ends_parts.simps ends.simps(5))
    also have "\<dots> = (if fst cur \<and> ci_prefix ''Pasal'' (drop n1 (snd cur)) then X2 (skip (n1 + 5) cur) else [])"
      by (simp add: X1 s1)
    also have "\<dots> = []" using False by (simp add: X2' n2_def[symmetric])
    finally show ?thesis by (simp only: False if_False)
  qed
qed

lemma label_len_le: "label_len x \<le> length x"
proof -
  have "length (takeWhile is_digit x) \<le> length x" "length (takeWhile (ci_in ''IVXLCM'') x) \<le> length x"
    by (rule length_takeWhile_le)+
  then show ?thesis by (simp add: label_len_def Let_def)
qed

lemma label_any_reject:
  assumes "is_space c"
  shows "ends_parts [Alt (Seq (Rep is_digit 1) (Opt (Cls is_alpha))) (Rep (ci_in ''IVXLCM'') 1),
           Seq (Rep is_space 0) Eol] (b, c # cs) = []"
proof -
  have "\<not> is_digit c" "\<not> ci_in ''IVXLCM'' c" using assms digit_not_space roman_not_space by blast+
  then have "label_len (c # cs) = 0" by (simp add: label_len_def)
  then show ?thesis by (simp only: ends_parts_label_any snd_conv) simp
qed

lemma label_own_reject:
  assumes "is_space c" and "L \<noteq> []" and "\<not> is_space (hd L)"
  shows "ends_parts [lit_ci L, Seq (Rep is_space 0) Eol] (b, c # cs) = []"
proof -
  obtain p ps where L: "L = p # ps" using assms(2) by (cases L) auto
  have "\<not> ci_eq p c" using assms(1,3) L ci_eq_space by auto
  then have "\<not> ci_prefix L (c # cs)" by (simp add: L ci_prefix_Cons)
  then show ?thesis by (simp only: ends_parts_label_own snd_conv) simp
qed

lemma ends_parts_tail:
  "ends_parts [Seq (Rep is_space 0) Eol] g = map (\<lambda>j. [skip j g]) (trail_js (snd g))"
  by (simp only: ends_parts_single ends_trail map_map o_def)

lemma header_match_generic:
  assumes rej: "\<And>b c cs. is_space c \<Longrightarrow> ends_parts [G, Seq (Rep is_space 0) Eol] (b, c # cs) = []"
      and grp: "\<And>c. ends_parts [G, Seq (Rep is_space 0) Eol] c =
          (case lab (snd c) of None \<Rightarrow> []
           | Some ll \<Rightarrow> map ((#) (skip ll c)) (ends_parts [Seq (Rep is_space 0) Eol] (skip ll c)))"
      and lab: "\<And>x ll. lab x = Some ll \<Longrightarrow> ll \<le> length x"
  shows "rx_match [keyword_rx ''Pasal'', G, Seq (Rep is_space 0) Eol] cur =
     (if fst cur then map_option (header_cursors cur) (header_parse lab (snd cur)) else None)"
proof -
  define n1 where "n1 = length (takeWhile is_space (snd cur))"
  define n2 where "n2 = length (takeWhile is_space (drop (n1 + 5) (snd cur)))"
  define k3 where "k3 = n1 + 5 + n2"
  note K = ends_parts_keyword[of "[G, Seq (Rep is_space 0) Eol]" cur, OF rej, folded n1_def, folded n2_def, folded k3_def]
  have hp: "header_parse lab (snd cur) =
     (if ci_prefix ''Pasal'' (drop n1 (snd cur)) \<and> 1 \<le> n2
         then (case lab (drop k3 (snd cur)) of
                 None \<Rightarrow> None
               | Some ll \<Rightarrow> (case trail_js (drop (k3 + ll) (snd cur)) of
                               [] \<Rightarrow> None
                             | j # _ \<Rightarrow> Some (k3, ll, j)))
         else None)"
    by (simp only: header_parse_def Let_def n1_def n2_def k3_def)
  show ?thesis
  proof (cases "fst cur \<and> ci_prefix ''Pasal'' (drop n1 (snd cur)) \<and> 1 \<le> n2")
    case False
    then show ?thesis by (auto simp add: rx_match_def K hp simp del: ends_parts.simps)
  next
    case True
    then have len: "5 \<le> length (drop n1 (snd cur))" using ci_prefix_length by fastforce
    have "n2 \<le> length (drop (n1 + 5) (snd cur))" unfolding n2_def by (rule length_takeWhile_le)
    with len have k3l: "k3 \<le> length (snd cur)" by (simp add: k3_def)
    show ?thesis
    proof (cases "lab (drop k3 (snd cur))")
      case None
      with True show ?thesis by (simp add: rx_match_def K hp grp del: ends_parts.simps)
    next
      case (Some ll)
      from lab[OF Some] have lll: "ll \<le> length (drop k3 (snd cur))" .
      have s1: "skip ll (skip k3 cur) = skip (k3 + ll) cur" by (rule skip_skip[OF k3l])
      have k3ll: "k3 + ll \<le> length (snd cur)" using lll k3l by simp
      have s2: "skip j (skip (k3 + ll) cur) = skip (k3 + ll + j) cur" for j by (rule skip_skip[OF k3ll])
      show ?thesis
      proof (cases "trail_js (drop (k3 + ll) (snd cur))")
        case Nil
        with True Some show ?thesis by (simp add: rx_match_def K hp grp s1 ends_parts_tail del: ends_parts.simps)
      next
        case (Cons j js)
        with True Some show ?thesis
          by (simp add: rx_match_def K hp grp s1 s2 ends_parts_tail header_cursors_def del: ends_parts.simps)
      qed
    qed
  qed
qed

lemma rx_match_PASAL:
  "rx_match PASAL_ANY_RE cur =
     (if fst cur then map_option (header_cursors cur) (header_parse label_any (snd cur)) else None)"
  unfolding PASAL_ANY_RE_def
proof (rule header_match_generic)
  show "ends_parts [Alt (Seq (Rep is_digit 1) (Opt (Cls is_alpha))) (Rep (ci_in ''IVXLCM'') 1),
           Seq (Rep is_space 0) Eol] (b, c # cs) = []" if "is_space c" for b c cs
    by (rule label_any_reject[OF that])
next
  show "ends_parts [Alt (Seq (Rep is_digit 1) (Opt (Cls is_alpha))) (Rep (ci_in ''IVXLCM'') 1),
           Seq (Rep is_space 0) Eol] c =
          (case label_any (snd c) of None \<Rightarrow> []
           | Some ll \<Rightarrow> map ((#) (skip ll c)) (ends_parts [Seq (Rep is_space 0) Eol] (skip ll c)))" for c
    by (simp only: ends_parts_label_any label_any_def) simp
next
  show "ll \<le> length x" if "label_any x = Some ll" for x ll
    using that label_len_le[of x] by (auto simp: label_any_def split: if_splits)
qed

lemma rx_match_own:
  assumes "L \<noteq> []" and "\<not> is_space (hd L)"
  shows "rx_match (own_header_rx L) cur =
     (if fst cur then map_option (header_cursors cur) (header_parse (label_own L) (snd cur)) else None)"
  unfolding own_header_rx_def
proof (rule header_match_generic)
  show "ends_parts [lit_ci L, Seq (Rep is_space 0) Eol] (b, c # cs) = []" if "is_space c" for b c cs
    by (rule label_own_reject[OF that assms])
next
  show "ends_parts [lit_ci L, Seq (Rep is_space 0) Eol] c =
          (case label_own L (snd c) of None \<Rightarrow> []
           | Some ll \<Rightarrow> map ((#) (skip ll c)) (ends_parts [Seq (Rep is_space 0) Eol] (skip ll c)))" for c
    by (simp only: ends_parts_label_own label_own_def) simp
next
  show "ll \<le> length x" if "label_own L x = Some ll" for x ll
    using that by (auto simp: label_own_def ci_prefix_def split: if_splits)
qed


lemma finditer_None_Cons:
  "rx_match rs (b, c # cs) = None \<Longrightarrow> finditer rs pos (b, c # cs) = finditer rs (Suc pos) (c = NL, cs)"
  by (subst finditer.simps) simp

lemma finditer_Some:
  "rx_match rs cur = Some m \<Longrightarrow> length (snd (m_end cur m)) < length (snd cur) \<Longrightarrow>
     finditer rs pos cur =
       (pos, m) # finditer rs (pos + (length (snd cur) - length (snd (m_end cur m)))) (m_end cur m)"
  by (subst finditer.simps) simp

lemma finditer_Some_hd:
  "rx_match rs cur = Some m \<Longrightarrow> \<exists>rest. finditer rs pos cur = (pos, m) # rest"
  by (subst finditer.simps) simp

lemma finditer_None_Nil_iff:
  "finditer rs pos (b, []) = [] \<Longrightarrow> rx_match rs (b, []) = None"
  using finditer_Some_hd[of rs "(b, [])" _ pos] by (cases "rx_match rs (b, [])") auto

lemma finditer_shift:
  "j \<le> length (snd cur) \<Longrightarrow> (\<forall>k<j. rx_match rs (skip k cur) = None) \<Longrightarrow>
     finditer rs pos cur = finditer rs (pos + j) (skip j cur)"
proof (induction j arbitrary: pos cur)
  case 0 then show ?case by simp
next
  case (Suc j)
  obtain b s where cur: "cur = (b, s)" by (cases cur)
  with Suc.prems(1) obtain c cs where s: "s = c # cs" by (cases s) auto
  from Suc.prems(2) have "rx_match rs (skip 0 cur) = None" by blast
  then have n0: "rx_match rs (b, c # cs) = None" by (simp add: cur s)
  have "finditer rs pos cur = finditer rs (Suc pos) (c = NL, cs)"
    unfolding cur s by (rule finditer_None_Cons[OF n0])
  also have "\<dots> = finditer rs (Suc pos + j) (skip j (c = NL, cs))"
  proof (rule Suc.IH)
    show "j \<le> length (snd (c = NL, cs))" using Suc.prems(1) cur s by simp
    show "\<forall>k<j. rx_match rs (skip k (c = NL, cs)) = None"
    proof (intro allI impI)
      fix k assume "k < j"
      then have "rx_match rs (skip (Suc k) cur) = None" using Suc.prems(2) by simp
      then show "rx_match rs (skip k (c = NL, cs)) = None" by (simp add: cur s skip_Suc_Cons)
    qed
  qed
  also have "skip j (c = NL, cs) = skip (Suc j) cur" by (simp add: cur s skip_Suc_Cons)
  finally show ?case by simp
qed

lemma finditer_head:
  "finditer rs pos (b, s) = (p, m) # rest \<Longrightarrow>
     pos \<le> p \<and> p - pos \<le> length s \<and> (\<forall>k < p - pos. rx_match rs (skip k (b, s)) = None) \<and>
     rx_match rs (skip (p - pos) (b, s)) = Some m"
proof (induction s arbitrary: pos b)
  case Nil
  show ?case
  proof (cases "rx_match rs (b, [])")
    case None
    then have "finditer rs pos (b, []) = []" by (subst finditer.simps) simp
    with Nil show ?thesis by simp
  next
    case (Some m')
    from finditer_Some_hd[OF Some, of pos] Nil have "p = pos" "m = m'" by auto
    with Some show ?thesis by simp
  qed
next
  case (Cons c cs)
  show ?case
  proof (cases "rx_match rs (b, c # cs)")
    case (Some m')
    from finditer_Some_hd[OF Some, of pos] Cons.prems have "p = pos" "m = m'" by auto
    with Some show ?thesis by simp
  next
    case None
    from Cons.prems finditer_None_Cons[OF None, of pos]
    have "finditer rs (Suc pos) (c = NL, cs) = (p, m) # rest" by simp
    from Cons.IH[OF this]
    have 1: "Suc pos \<le> p" and 2: "p - Suc pos \<le> length cs"
      and 3: "\<forall>k < p - Suc pos. rx_match rs (skip k (c = NL, cs)) = None"
      and 4: "rx_match rs (skip (p - Suc pos) (c = NL, cs)) = Some m" by simp_all
    have e: "p - pos = Suc (p - Suc pos)" using 1 by simp
    have "rx_match rs (skip k (b, c # cs)) = None" if "k < p - pos" for k
    proof (cases k)
      case 0 with None show ?thesis by simp
    next
      case (Suc k')
      with that e have "k' < p - Suc pos" by simp
      with 3 Suc show ?thesis by (simp add: skip_Suc_Cons)
    qed
    moreover have "rx_match rs (skip (p - pos) (b, c # cs)) = Some m"
      using 4 by (simp only: e skip_Suc_Cons)
    ultimately show ?thesis using 1 2 by simp
  qed
qed

lemma finditer_empty:
  "finditer rs pos (b, s) = [] \<Longrightarrow> k \<le> length s \<Longrightarrow> rx_match rs (skip k (b, s)) = None"
proof (induction s arbitrary: pos b k)
  case Nil
  then show ?case using finditer_None_Nil_iff by simp
next
  case (Cons c cs)
  have None: "rx_match rs (b, c # cs) = None"
    using finditer_Some_hd[of rs "(b, c # cs)" _ pos] Cons.prems(1)
    by (cases "rx_match rs (b, c # cs)") auto
  show ?case
  proof (cases k)
    case 0 with None show ?thesis by simp
  next
    case (Suc k')
    from Cons.prems(1) finditer_None_Cons[OF None, of pos]
    have "finditer rs (Suc pos) (c = NL, cs) = []" by simp
    from Cons.IH[OF this, of k'] Cons.prems(2) Suc show ?thesis by (simp add: skip_Suc_Cons)
  qed
qed

lemma finditer_tail:
  assumes con: "consuming rs" and L: "finditer rs pos cur = (p, m) # rest"
  defines "c \<equiv> skip (p - pos) cur"
  defines "n \<equiv> length (snd c) - length (snd (m_end c m))"
  shows "0 < n \<and> p - pos + n \<le> length (snd cur) \<and> rx_match rs c = Some m \<and>
         m_end c m = skip (p - pos + n) cur \<and>
         rest = finditer rs (p + n) (skip (p - pos + n) cur)"
proof -
  obtain b s where cur: "cur = (b, s)" by (cases cur)
  from finditer_head[OF L[unfolded cur]]
  have 1: "pos \<le> p" and 2: "p - pos \<le> length (snd cur)"
    and 3: "\<forall>k < p - pos. rx_match rs (skip k cur) = None"
    and 4: "rx_match rs c = Some m" by (simp_all add: cur c_def)
  from con 4 have lt: "length (snd (m_end c m)) < length (snd c)" unfolding consuming_def by blast
  have "finditer rs pos cur = finditer rs (pos + (p - pos)) c"
    unfolding c_def by (rule finditer_shift[OF 2 3])
  also have "\<dots> = finditer rs p c" using 1 by simp
  also have "\<dots> = (p, m) # finditer rs (p + n) (m_end c m)"
    unfolding n_def by (rule finditer_Some[OF 4 lt])
  finally have r: "rest = finditer rs (p + n) (m_end c m)" using L by simp
  have "m_end c m = skip n c" unfolding n_def by (rule rx_match_end_len[OF 4])
  also have "\<dots> = skip (p - pos + n) cur" unfolding c_def by (rule skip_skip[OF 2])
  finally have e: "m_end c m = skip (p - pos + n) cur" .
  have "n \<le> length (snd c)" by (simp add: n_def)
  then have "p - pos + n \<le> length (snd cur)" using 2 by (simp add: c_def)
  moreover have "0 < n" using lt by (simp add: n_def)
  ultimately show ?thesis using r e 4 by simp
qed

lemma finditer_drop:
  assumes con: "consuming rs"
  shows "i < length (finditer rs pos cur) \<Longrightarrow>
     drop i (finditer rs pos cur) =
       finditer rs (fst (finditer rs pos cur ! i)) (skip (fst (finditer rs pos cur ! i) - pos) cur)"
proof (induction i arbitrary: pos cur)
  case 0
  then obtain p m rest where L: "finditer rs pos cur = (p, m) # rest"
    by (cases "finditer rs pos cur") auto
  obtain b s where cur: "cur = (b, s)" by (cases cur)
  from finditer_head[OF L[unfolded cur]]
  have 1: "pos \<le> p" and 2: "p - pos \<le> length (snd cur)"
    and 3: "\<forall>k < p - pos. rx_match rs (skip k cur) = None" by (simp_all add: cur)
  have "finditer rs pos cur = finditer rs (pos + (p - pos)) (skip (p - pos) cur)"
    by (rule finditer_shift[OF 2 3])
  then have e: "finditer rs pos cur = finditer rs p (skip (p - pos) cur)" using 1 by simp
  have f: "fst (finditer rs pos cur ! 0) = p" using L by simp
  show ?case unfolding f drop_0 by (rule e)
next
  case (Suc i)
  then obtain p m rest where L: "finditer rs pos cur = (p, m) # rest"
    by (cases "finditer rs pos cur") auto
  define n where "n = length (snd (skip (p - pos) cur)) - length (snd (m_end (skip (p - pos) cur) m))"
  from finditer_tail[OF con L, folded n_def]
  have n: "0 < n" and le: "p - pos + n \<le> length (snd cur)"
    and rest: "rest = finditer rs (p + n) (skip (p - pos + n) cur)" by simp_all
  obtain b s where cur: "cur = (b, s)" by (cases cur)
  from finditer_head[OF L[unfolded cur]] have pp: "pos \<le> p" by simp
  have i: "i < length (finditer rs (p + n) (skip (p - pos + n) cur))" using Suc.prems L rest by simp
  define q where "q = fst (finditer rs (p + n) (skip (p - pos + n) cur) ! i)"
  have qL: "q = fst (finditer rs pos cur ! Suc i)" by (simp add: q_def L rest)
  have "(q, snd (finditer rs (p + n) (skip (p - pos + n) cur) ! i))
          \<in> set (finditer rs (p + n) (skip (p - pos + n) cur))"
    unfolding q_def using i by simp
  from finditer_sound[OF this] have qge: "p + n \<le> q" by simp
  have "drop (Suc i) (finditer rs pos cur) = drop i (finditer rs (p + n) (skip (p - pos + n) cur))"
    by (simp add: L rest)
  also have "\<dots> = finditer rs q (skip (q - (p + n)) (skip (p - pos + n) cur))"
    unfolding q_def by (rule Suc.IH[OF i])
  also have "skip (q - (p + n)) (skip (p - pos + n) cur) = skip (p - pos + n + (q - (p + n))) cur"
    by (rule skip_skip[OF le])
  also have "p - pos + n + (q - (p + n)) = q - pos" using qge pp by simp
  finally show ?case by (simp add: qL)
qed

text \<open>Between the end of a match and the start of the next one (or the end of the text)
  the pattern matches nowhere.\<close>

lemma finditer_gap:
  assumes con: "consuming rs" and i: "i < length (finditer rs 0 (True, t))"
  defines "L \<equiv> finditer rs 0 (True, t)"
  defines "p \<equiv> fst (L ! i)" and "m \<equiv> snd (L ! i)"
  defines "pe \<equiv> length t - length (snd (m_end (skip p (True, t)) m))"
  defines "e \<equiv> (if Suc i < length L then fst (L ! Suc i) else length t)"
  shows "rx_match rs (skip p (True, t)) = Some m" and "p < pe" and "pe \<le> e" and "e \<le> length t"
    and "m_end (skip p (True, t)) m = skip pe (True, t)"
    and "\<And>k. pe \<le> k \<Longrightarrow> k < e \<Longrightarrow> rx_match rs (skip k (True, t)) = None"
proof -
  have d: "drop i L = finditer rs p (skip p (True, t))"
    using finditer_drop[OF con i] by (simp add: L_def p_def)
  have "drop i L = (p, m) # drop (Suc i) L" using i
    by (simp add: L_def[symmetric] p_def m_def Cons_nth_drop_Suc)
  with d have h: "finditer rs p (skip p (True, t)) = (p, m) # drop (Suc i) L" by simp
  define n where "n = length (snd (skip p (True, t))) - length (snd (m_end (skip p (True, t)) m))"
  have "(p, m) \<in> set L" using i by (simp add: L_def[symmetric] p_def m_def)
  from finditer_sound[OF this[unfolded L_def]] have pl: "p \<le> length t" by simp
  from finditer_tail[OF con h] 
  have n: "0 < n" and le: "n \<le> length (snd (skip p (True, t)))"
    and mt: "rx_match rs (skip p (True, t)) = Some m"
    and me: "m_end (skip p (True, t)) m = skip n (skip p (True, t))"
    and rest: "drop (Suc i) L = finditer rs (p + n) (skip n (skip p (True, t)))"
    by (simp_all add: n_def)
  have ss: "skip n (skip p (True, t)) = skip (p + n) (True, t)" using skip_skip[of p "(True, t)" n] pl by simp
  have pn: "p + n \<le> length t" using le pl by simp
  have pe: "pe = p + n" using pn pl by (simp add: pe_def me ss)
  show "rx_match rs (skip p (True, t)) = Some m" by (rule mt)
  show "p < pe" using n pe by simp
  show "m_end (skip p (True, t)) m = skip pe (True, t)" by (simp add: me ss pe)
  show "e \<le> length t"
  proof (cases "Suc i < length L")
    case True
    then have "(fst (L ! Suc i), snd (L ! Suc i)) \<in> set L" by simp
    from finditer_sound[OF this[unfolded L_def]] True show ?thesis by (simp add: e_def L_def)
  next
    case False then show ?thesis by (simp add: e_def)
  qed
  show "pe \<le> e"
  proof (cases "Suc i < length L")
    case True
    then have "drop (Suc i) L = L ! Suc i # drop (Suc (Suc i)) L" by (simp add: Cons_nth_drop_Suc)
    then have "finditer rs (p + n) (skip (p + n) (True, t)) = (e, snd (L ! Suc i)) # drop (Suc (Suc i)) L"
      using rest ss True by (simp add: e_def)
    moreover obtain b s where c: "skip (p + n) (True, t) = (b, s)" by (cases "skip (p + n) (True, t)")
    ultimately have "finditer rs (p + n) (b, s) = (e, snd (L ! Suc i)) # drop (Suc (Suc i)) L" by simp
    from finditer_head[OF this] pe show ?thesis by simp
  next
    case False then show ?thesis using pn pe by (simp add: e_def)
  qed
  show "rx_match rs (skip k (True, t)) = None" if k: "pe \<le> k" "k < e" for k
  proof (cases "Suc i < length L")
    case True
    then have "drop (Suc i) L = L ! Suc i # drop (Suc (Suc i)) L" by (simp add: Cons_nth_drop_Suc)
    then have f: "finditer rs (p + n) (skip (p + n) (True, t)) = (e, snd (L ! Suc i)) # drop (Suc (Suc i)) L"
      using rest ss True by (simp add: e_def)
    obtain b s where c: "skip (p + n) (True, t) = (b, s)" by (cases "skip (p + n) (True, t)")
    from finditer_head[OF f[unfolded c]]
    have "\<forall>j < e - (p + n). rx_match rs (skip j (skip (p + n) (True, t))) = None" by (simp add: c)
    moreover have "k - (p + n) < e - (p + n)" using k pe by simp
    ultimately have "rx_match rs (skip (k - (p + n)) (skip (p + n) (True, t))) = None" by blast
    moreover have "skip (k - (p + n)) (skip (p + n) (True, t)) = skip (p + n + (k - (p + n))) (True, t)"
      using skip_skip[of "p + n" "(True, t)"] pn by simp
    ultimately show ?thesis using k pe by simp
  next
    case False
    then have "finditer rs (p + n) (skip (p + n) (True, t)) = []" using rest ss by simp
    moreover obtain b s where c: "skip (p + n) (True, t) = (b, s)" by (cases "skip (p + n) (True, t)")
    moreover have "s = drop (p + n) t" using arg_cong[OF c, of snd] by simp
    then have "k - (p + n) \<le> length s" using k False by (simp add: e_def)
    ultimately have "rx_match rs (skip (k - (p + n)) (skip (p + n) (True, t))) = None"
      using finditer_empty[of rs "p + n" b s "k - (p + n)"] by simp
    moreover have "skip (k - (p + n)) (skip (p + n) (True, t)) = skip (p + n + (k - (p + n))) (True, t)"
      using skip_skip[of "p + n" "(True, t)"] pn by simp
    ultimately show ?thesis using k pe by simp
  qed
qed


subsection \<open>Character classes under case folding\<close>

lemma ci_eq_refl [simp]: "ci_eq c c" by (simp add: ci_eq_def)

lemma upper_to_lower: "is_upper p \<Longrightarrow> is_lower (to_lower p)"
  by (auto simp: is_upper_def to_lower_def is_lower_def)

lemma lower_not_upper: "is_lower c \<Longrightarrow> \<not> is_upper c"
  by (auto simp: is_lower_def is_upper_def)

lemma alpha_to_lower: "is_alpha (to_lower c) \<longleftrightarrow> is_alpha c"
proof (cases "is_upper c")
  case True
  with upper_to_lower[OF True] show ?thesis by (simp add: is_alpha_def)
next
  case False
  then show ?thesis by (simp add: to_lower_id)
qed

lemma ci_eq_alpha: "ci_eq a b \<Longrightarrow> is_alpha a \<longleftrightarrow> is_alpha b"
  by (metis alpha_to_lower ci_eq_def)

lemma digit_not_upper: "is_digit c \<Longrightarrow> \<not> is_upper c"
  by (auto simp: is_digit_def is_upper_def)

lemma digit_not_lower: "is_digit c \<Longrightarrow> \<not> is_lower c"
  by (auto simp: is_digit_def is_lower_def)

lemma digit_to_lower: "is_digit (to_lower c) \<longleftrightarrow> is_digit c"
proof (cases "is_upper c")
  case True
  with upper_to_lower[OF True] digit_not_lower digit_not_upper show ?thesis by blast
next
  case False
  then show ?thesis by (simp add: to_lower_id)
qed

lemma ci_eq_digit: "ci_eq a b \<Longrightarrow> is_digit a \<longleftrightarrow> is_digit b"
  by (metis digit_to_lower ci_eq_def)

lemma ci_eq_ci_in: "ci_eq a b \<Longrightarrow> ci_in ps a \<longleftrightarrow> ci_in ps b"
  by (simp add: ci_in_def ci_eq_def)

subsection \<open>Prefixes up to case\<close>

lemma ci_prefix_iff:
  "ci_prefix w x \<longleftrightarrow> (\<exists>u r. x = u @ r \<and> list_all2 ci_eq w u)"
proof
  assume "ci_prefix w x"
  then have "x = take (length w) x @ drop (length w) x \<and> list_all2 ci_eq w (take (length w) x)"
    by (simp add: ci_prefix_def)
  then show "\<exists>u r. x = u @ r \<and> list_all2 ci_eq w u" by blast
next
  assume "\<exists>u r. x = u @ r \<and> list_all2 ci_eq w u"
  then obtain u r where x: "x = u @ r" and a: "list_all2 ci_eq w u" by blast
  from a have "length w = length u" by (rule list_all2_lengthD)
  with x a show "ci_prefix w x" by (simp add: ci_prefix_def)
qed

lemma list_all2_ci_refl: "list_all2 ci_eq L L"
  by (simp add: list_all2_refl)

subsection \<open>The trailing part \<open>\s*$\<close>\<close>

lemma trail_js_Nil: "trail_js [] = [0]"
  by (simp add: trail_js_def)

lemma trail_js_hd_space: "trail_js z \<noteq> [] \<Longrightarrow> z = [] \<or> is_space (hd z)"
  using trail_js_nonspace[of "hd z" "tl z"] by (cases z) auto

lemma length_takeWhile_less:
  assumes "z \<noteq> []" "\<not> P (last z)"
  shows "length (takeWhile P z) < length z"
proof (rule ccontr)
  assume "\<not> length (takeWhile P z) < length z"
  then have "length (takeWhile P z) = length z" using length_takeWhile_le[of P z] by simp
  then have "takeWhile P z = z" by (metis takeWhile_eq_take take_all order_refl)
  then have "\<forall>x\<in>set z. P x" by (metis set_takeWhileD)
  with assms show False by simp
qed

lemma trail_js_append:
  assumes "z \<noteq> []" "\<not> is_space (last z)"
  shows "trail_js (z @ Z) = trail_js z"
proof -
  have tw: "takeWhile is_space (z @ Z) = takeWhile is_space z"
    by (rule takeWhile_append1[of "last z"]) (use assms in simp_all)
  have n: "length (takeWhile is_space z) < length z"
    by (rule length_takeWhile_less[where P = is_space, OF assms])
  have "filter (\<lambda>j. drop j (z @ Z) = [] \<or> (z @ Z) ! j = NL) (rev [0..<Suc (length (takeWhile is_space z))])
      = filter (\<lambda>j. drop j z = [] \<or> z ! j = NL) (rev [0..<Suc (length (takeWhile is_space z))])"
  proof (rule filter_cong[OF refl])
    fix j assume "j \<in> set (rev [0..<Suc (length (takeWhile is_space z))])"
    then have "j < length z" using n by auto
    then show "(drop j (z @ Z) = [] \<or> (z @ Z) ! j = NL) = (drop j z = [] \<or> z ! j = NL)"
      by (simp add: nth_append)
  qed
  then show ?thesis by (simp only: trail_js_def tw)
qed

lemma trail_js_all_space:
  assumes "\<forall>c\<in>set Z. is_space c"
  shows "trail_js Z \<noteq> []"
proof -
  have tw: "takeWhile is_space Z = Z" using assms by (simp add: takeWhile_eq_all_conv)
  have "length Z \<in> set (filter (\<lambda>j. drop j Z = [] \<or> Z ! j = NL) (rev [0..<Suc (length Z)]))"
    by (simp del: upt_Suc)
  then have "length Z \<in> set (trail_js Z)" by (simp only: trail_js_def tw)
  then show ?thesis by auto
qed

lemma trail_js_NL:
  assumes "\<forall>c\<in>set W. is_space c" and "W \<noteq> []" and "last W = NL"
  shows "trail_js (W @ Z) \<noteq> []"
proof -
  have "takeWhile is_space (W @ Z) = W @ takeWhile is_space Z"
    using assms(1) by (simp add: takeWhile_append2)
  then have n: "length W - 1 < Suc (length (takeWhile is_space (W @ Z)))" by simp
  have "(W @ Z) ! (length W - 1) = NL" using assms(2,3) by (simp add: nth_append last_conv_nth)
  with n have "length W - 1 \<in> set (trail_js (W @ Z))"
    unfolding trail_js_def by (simp del: upt_Suc takeWhile_append)
  then show ?thesis by auto
qed

lemma trail_js_spaces:
  assumes "j \<in> set (trail_js z)" and "c \<in> set (take j z)"
  shows "is_space c"
proof -
  define n where "n = length (takeWhile is_space z)"
  from assms(1) have jn: "j \<le> n" unfolding n_def by (rule trail_js_le)
  have tw: "takeWhile is_space z = take n z" unfolding n_def by (rule takeWhile_eq_take)
  have "take j (take n z) = take j z" using jn by (simp add: min_def)
  with assms(2) have "c \<in> set (take j (take n z))" by simp
  then have "c \<in> set (take n z)" by (rule in_set_takeD)
  then have "c \<in> set (takeWhile is_space z)" by (simp only: tw)
  then show ?thesis using set_takeWhileD by fastforce
qed

subsection \<open>Labels\<close>

lemma takeWhile_stop: "R = [] \<or> \<not> P (hd R) \<Longrightarrow> takeWhile P R = []"
  by (cases R) auto

lemma takeWhile_append_stop:
  "R = [] \<or> \<not> P (hd R) \<Longrightarrow> takeWhile P (L @ R) = takeWhile P L"
  by (induction L) (simp_all add: takeWhile_stop)

lemma label_len_append:
  assumes "R = [] \<or> is_space (hd R)"
  shows "label_len (L @ R) = label_len L"
proof -
  have d: "takeWhile is_digit (L @ R) = takeWhile is_digit L"
    by (rule takeWhile_append_stop) (use assms digit_not_space in blast)
  have r: "takeWhile (ci_in ''IVXLCM'') (L @ R) = takeWhile (ci_in ''IVXLCM'') L"
    by (rule takeWhile_append_stop) (use assms roman_not_space in blast)
  let ?nd = "length (takeWhile is_digit L)"
  have a: "(?nd < length (L @ R) \<and> is_alpha ((L @ R) ! ?nd)) \<longleftrightarrow> (?nd < length L \<and> is_alpha (L ! ?nd))"
  proof (cases "?nd < length L")
    case True then show ?thesis by (simp add: nth_append)
  next
    case False
    then have e: "?nd = length L" using length_takeWhile_le[of is_digit L] by simp
    show ?thesis
    proof (cases R)
      case Nil with e show ?thesis by simp
    next
      case (Cons x xs)
      with assms have "is_space x" by simp
      then have "\<not> is_alpha x" using alpha_not_space by blast
      with e Cons show ?thesis by (simp add: nth_append)
    qed
  qed
  show ?thesis unfolding label_len_def d r Let_def using a by simp
qed

lemma length_takeWhile_cong:
  "list_all2 (\<lambda>a b. P a = P b) x y \<Longrightarrow> length (takeWhile P x) = length (takeWhile P y)"
  by (induction rule: list_all2_induct) auto

lemma label_len_ci:
  assumes "list_all2 ci_eq x y"
  shows "label_len x = label_len y"
proof -
  have d: "length (takeWhile is_digit x) = length (takeWhile is_digit y)"
    by (rule length_takeWhile_cong) (rule list_all2_mono[OF assms], simp add: ci_eq_digit)
  have r: "length (takeWhile (ci_in ''IVXLCM'') x) = length (takeWhile (ci_in ''IVXLCM'') y)"
    by (rule length_takeWhile_cong) (rule list_all2_mono[OF assms], simp add: ci_eq_ci_in)
  have l: "length x = length y" using assms by (rule list_all2_lengthD)
  have a: "is_alpha (x ! n) = is_alpha (y ! n)" if "n < length y" for n
    using list_all2_nthD2[OF assms that] by (rule ci_eq_alpha)
  show ?thesis unfolding label_len_def d r l Let_def using a by auto
qed

lemma takeWhile_full: "length (takeWhile P x) = length x \<Longrightarrow> c \<in> set x \<Longrightarrow> P c"
proof -
  assume l: "length (takeWhile P x) = length x" and c: "c \<in> set x"
  have "takeWhile P x = take (length (takeWhile P x)) x" by (rule takeWhile_eq_take)
  with l have "takeWhile P x = x" by simp
  then have "\<forall>x\<in>set x. P x" by (simp only: takeWhile_eq_all_conv)
  with c show "P c" by blast
qed

lemma label_len_no_space:
  assumes "label_len x = length x" and "c \<in> set x"
  shows "\<not> is_space c"
proof -
  define nd where "nd = length (takeWhile is_digit x)"
  have ll: "label_len x = (if 1 \<le> nd then (if nd < length x \<and> is_alpha (x ! nd) then Suc nd else nd)
         else length (takeWhile (ci_in ''IVXLCM'') x))"
    by (simp only: label_len_def Let_def nd_def)
  show ?thesis
  proof (cases "1 \<le> nd")
    case False
    with assms(1) ll have "length (takeWhile (ci_in ''IVXLCM'') x) = length x" by simp
    from takeWhile_full[OF this assms(2)] show ?thesis by (rule roman_not_space)
  next
    case True
    show ?thesis
    proof (cases "nd < length x \<and> is_alpha (x ! nd)")
      case False
      with True assms(1) ll have "nd = length x" by simp
      then have "length (takeWhile is_digit x) = length x" by (simp only: nd_def)
      from takeWhile_full[OF this assms(2)] show ?thesis by (rule digit_not_space)
    next
      case al: True
      with True assms(1) ll have e: "Suc nd = length x" by simp
      obtain i where i: "i < length x" "x ! i = c" using assms(2) by (auto simp: in_set_conv_nth)
      show ?thesis
      proof (cases "i < nd")
        case True
        then have "takeWhile is_digit x ! i = x ! i" unfolding nd_def by (rule takeWhile_nth)
        moreover have "takeWhile is_digit x ! i \<in> set (takeWhile is_digit x)"
          using True by (simp add: nd_def)
        ultimately have "c \<in> set (takeWhile is_digit x)" using i by simp
        then have "is_digit c" using set_takeWhileD by fastforce
        then show ?thesis by (rule digit_not_space)
      next
        case False
        with i e have "i = nd" by simp
        with al i have "is_alpha c" by simp
        then show ?thesis by (rule alpha_not_space)
      qed
    qed
  qed
qed


subsection \<open>The header as a decomposition of the text\<close>

lemma pasal_hd_nonspace:
  assumes "list_all2 ci_eq ''Pasal'' P5"
  shows "P5 \<noteq> [] \<and> \<not> is_space (hd P5)"
proof -
  from assms obtain c cs where "P5 = c # cs" "ci_eq (CHR ''P'') c"
    by (cases P5) auto
  then show ?thesis using space_not_P by auto
qed

lemma header_parse_decomp:
  assumes "header_parse lab S = Some (k3, ll, j)"
  shows "\<exists>w1 P5 w2 R. S = w1 @ P5 @ w2 @ R \<and> (\<forall>c\<in>set w1. is_space c) \<and>
           list_all2 ci_eq ''Pasal'' P5 \<and> (\<forall>c\<in>set w2. is_space c) \<and> w2 \<noteq> [] \<and>
           (R = [] \<or> \<not> is_space (hd R)) \<and> k3 = length w1 + 5 + length w2 \<and>
           lab R = Some ll \<and> j \<in> set (trail_js (drop ll R)) \<and> hd (trail_js (drop ll R)) = j"
proof -
  define n1 where "n1 = length (takeWhile is_space S)"
  define n2 where "n2 = length (takeWhile is_space (drop (n1 + 5) S))"
  have hp: "header_parse lab S =
     (if ci_prefix ''Pasal'' (drop n1 S) \<and> 1 \<le> n2
      then (case lab (drop (n1 + 5 + n2) S) of
              None \<Rightarrow> None
            | Some ll \<Rightarrow> (case trail_js (drop (n1 + 5 + n2 + ll) S) of
                            [] \<Rightarrow> None
                          | j # _ \<Rightarrow> Some (n1 + 5 + n2, ll, j)))
      else None)"
    by (simp only: header_parse_def Let_def n1_def n2_def)
  have c: "ci_prefix ''Pasal'' (drop n1 S) \<and> 1 \<le> n2"
  proof (rule ccontr)
    assume "\<not> (ci_prefix ''Pasal'' (drop n1 S) \<and> 1 \<le> n2)"
    then have "header_parse lab S = None" by (simp only: hp if_False)
    with assms show False by simp
  qed
  then have cp: "ci_prefix ''Pasal'' (drop n1 S)" and n2: "1 \<le> n2" by simp_all
  have hp2: "header_parse lab S =
      (case lab (drop (n1 + 5 + n2) S) of
              None \<Rightarrow> None
            | Some ll \<Rightarrow> (case trail_js (drop (n1 + 5 + n2 + ll) S) of
                            [] \<Rightarrow> None
                          | j # _ \<Rightarrow> Some (n1 + 5 + n2, ll, j)))"
    by (simp only: hp c simp_thms if_True)
  obtain l' where l': "lab (drop (n1 + 5 + n2) S) = Some l'"
    using assms hp2 by (cases "lab (drop (n1 + 5 + n2) S)") simp_all
  have hp3: "header_parse lab S =
      (case trail_js (drop (n1 + 5 + n2 + l') S) of [] \<Rightarrow> None | j # _ \<Rightarrow> Some (n1 + 5 + n2, l', j))"
    by (simp only: hp2 l' option.case)
  obtain j' js where j': "trail_js (drop (n1 + 5 + n2 + l') S) = j' # js"
    using assms hp3 by (cases "trail_js (drop (n1 + 5 + n2 + l') S)") simp_all
  have "header_parse lab S = Some (n1 + 5 + n2, l', j')" by (simp only: hp3 j' list.case)
  with assms have k3: "k3 = n1 + 5 + n2" and ll: "ll = l'" and j: "j = j'" by simp_all
  have lab: "lab (drop k3 S) = Some ll" using l' k3 ll by simp
  have tj: "j \<in> set (trail_js (drop (k3 + ll) S))" "hd (trail_js (drop (k3 + ll) S)) = j"
    using j' k3 ll j by simp_all
  define w1 where "w1 = takeWhile is_space S"
  define P5 where "P5 = take 5 (drop n1 S)"
  define w2 where "w2 = takeWhile is_space (drop (n1 + 5) S)"
  define R where "R = dropWhile is_space (drop (n1 + 5) S)"
  have "drop n1 S = dropWhile is_space S" unfolding n1_def by (rule dropWhile_eq_drop[symmetric])
  then have S1: "S = w1 @ drop n1 S" by (simp only: w1_def takeWhile_dropWhile_id)
  have "drop (n1 + 5) S = drop 5 (drop n1 S)" by (simp only: drop_drop add.commute)
  then have S2: "drop n1 S = P5 @ drop (n1 + 5) S" by (simp only: P5_def append_take_drop_id)
  have S3: "drop (n1 + 5) S = w2 @ R" by (simp add: w2_def R_def)
  have a1: "S = w1 @ P5 @ w2 @ R" using S1 S2 S3 by simp
  have a2: "\<forall>c\<in>set w1. is_space c" unfolding w1_def using set_takeWhileD by fastforce
  have l5: "length ''Pasal'' = 5" by simp
  from cp have "list_all2 ci_eq ''Pasal'' (take (length ''Pasal'') (drop n1 S))"
    by (simp only: ci_prefix_def)
  then have a3: "list_all2 ci_eq ''Pasal'' P5" by (simp only: l5 P5_def)
  have a4: "\<forall>c\<in>set w2. is_space c" unfolding w2_def using set_takeWhileD by fastforce
  have l1: "length w1 = n1" by (simp add: w1_def n1_def)
  have l2: "length w2 = n2" by (simp add: w2_def n2_def)
  have a5: "w2 \<noteq> []" using n2 l2 by auto
  have a6: "R = [] \<or> \<not> is_space (hd R)"
  proof (cases "R = []")
    case True then show ?thesis by simp
  next
    case False then show ?thesis unfolding R_def using hd_dropWhile[of is_space] by blast
  qed
  have "R = drop n2 (drop (n1 + 5) S)" unfolding R_def n2_def by (rule dropWhile_eq_drop)
  then have RR: "R = drop k3 S" by (simp add: k3 add.commute)
  have dR: "drop ll R = drop (k3 + ll) S" by (simp add: RR add.commute)
  have a7: "k3 = length w1 + 5 + length w2" by (simp add: k3 l1 l2)
  have a8: "lab R = Some ll" using lab RR by simp
  have a9: "j \<in> set (trail_js (drop ll R))" using tj(1) dR by simp
  have a10: "hd (trail_js (drop ll R)) = j" using tj(2) dR by simp
  show ?thesis
    by (rule exI[of _ w1], rule exI[of _ P5], rule exI[of _ w2], rule exI[of _ R])
       (intro conjI a1 a2 a3 a4 a5 a6 a7 a8 a9 a10)
qed

lemma header_parse_compose:
  assumes S: "S = w1 @ P5 @ w2 @ R" and w1: "\<forall>c\<in>set w1. is_space c"
      and P5: "list_all2 ci_eq ''Pasal'' P5" and w2: "\<forall>c\<in>set w2. is_space c" "w2 \<noteq> []"
      and R: "R = [] \<or> \<not> is_space (hd R)" and lab: "lab R = Some ll"
      and tj: "trail_js (drop ll R) = j # js"
  shows "header_parse lab S = Some (length w1 + 5 + length w2, ll, j)"
proof -
  from pasal_hd_nonspace[OF P5] have p: "P5 \<noteq> []" "\<not> is_space (hd P5)" by simp_all
  have l5: "length P5 = 5" using list_all2_lengthD[OF P5] by simp
  have "takeWhile is_space S = w1 @ takeWhile is_space (P5 @ w2 @ R)"
    unfolding S using w1 by (simp add: takeWhile_append2)
  also have "takeWhile is_space (P5 @ w2 @ R) = []" using p by (cases P5) auto
  finally have t1: "takeWhile is_space S = w1" by simp
  have d1: "drop (length w1) S = P5 @ w2 @ R" by (simp add: S)
  have cp: "ci_prefix ''Pasal'' (P5 @ w2 @ R)" using P5 by (auto simp: ci_prefix_iff)
  have d2: "drop (length w1 + 5) S = w2 @ R" using l5 by (simp add: S)
  have "takeWhile is_space (w2 @ R) = w2 @ takeWhile is_space R"
    using w2(1) by (simp add: takeWhile_append2)
  also have "takeWhile is_space R = []" using R by (cases R) auto
  finally have t2: "takeWhile is_space (w2 @ R) = w2" by simp
  have d3: "drop (length w1 + 5 + length w2) S = R" using l5 by (simp add: S)
  have d4: "drop (length w1 + 5 + length w2 + l) S = drop l R" for l
    using d3 by (metis add.commute drop_drop)
  have n2: "1 \<le> length w2" using w2(2) by (cases w2) auto
  show ?thesis
    unfolding header_parse_def Let_def t1 d1 d2 t2 d3 d4 using cp n2 lab tj by simp
qed


subsection \<open>Trimming\<close>

lemma lstrip_spaces_append: "\<forall>c\<in>set w. is_space c \<Longrightarrow> lstrip (w @ x) = lstrip x"
  by (simp add: lstrip_def dropWhile_append2)

lemma rstrip_append_spaces:
  assumes "\<forall>c\<in>set w. is_space c"
  shows "rstrip (x @ w) = rstrip x"
proof -
  have "\<forall>c\<in>set (rev w). is_space c" using assms by simp
  then have "dropWhile is_space (rev w @ rev x) = dropWhile is_space (rev x)"
    by (simp only: dropWhile_append2)
  then show ?thesis by (simp add: rstrip_def)
qed

lemma lstrip_append_nonspace:
  "x \<in> set a \<Longrightarrow> \<not> is_space x \<Longrightarrow> lstrip (a @ y) = lstrip a @ y"
  unfolding lstrip_def by (rule dropWhile_append1)

lemma strip_spaces_append: "\<forall>c\<in>set w. is_space c \<Longrightarrow> strip (w @ x) = strip x"
  by (simp add: strip_def lstrip_spaces_append)

lemma lstrip_all_space: "\<forall>c\<in>set x. is_space c \<Longrightarrow> lstrip x = []"
  by (simp add: lstrip_def)

lemma strip_append_spaces:
  assumes "\<forall>c\<in>set w. is_space c"
  shows "strip (x @ w) = strip x"
proof (cases "\<forall>c\<in>set x. is_space c")
  case True
  then have "\<forall>c\<in>set (x @ w). is_space c" using assms by auto
  then have "strip (x @ w) = []" by (simp only: strip_Nil_iff)
  moreover have "strip x = []" using True by (simp only: strip_Nil_iff)
  ultimately show ?thesis by simp
next
  case False
  then obtain c where c: "c \<in> set x" "\<not> is_space c" by blast
  have "lstrip (x @ w) = lstrip x @ w" using c by (rule lstrip_append_nonspace)
  then show ?thesis by (simp add: strip_def rstrip_append_spaces[OF assms])
qed

lemma rstrip_decomp: "\<exists>w. s = rstrip s @ w \<and> (\<forall>c\<in>set w. is_space c)"
proof -
  have "rev s = takeWhile is_space (rev s) @ dropWhile is_space (rev s)" by simp
  then have "s = rev (dropWhile is_space (rev s)) @ rev (takeWhile is_space (rev s))"
    by (metis rev_append rev_rev_ident)
  then have "s = rstrip s @ rev (takeWhile is_space (rev s))" by (simp add: rstrip_def)
  moreover have "\<forall>c\<in>set (rev (takeWhile is_space (rev s))). is_space c"
    using set_takeWhileD by fastforce
  ultimately show ?thesis by blast
qed

lemma strip_rstrip: "strip (rstrip s) = strip s"
proof -
  from rstrip_decomp[of s] obtain w where w: "s = rstrip s @ w" "\<forall>c\<in>set w. is_space c" by blast
  have "strip (rstrip s @ w) = strip (rstrip s)" by (rule strip_append_spaces[OF w(2)])
  with w(1) show ?thesis by simp
qed

lemma strip_drop_spaces:
  assumes "\<forall>c\<in>set (take j z). is_space c"
  shows "strip (drop j z) = strip z"
proof -
  have "strip (take j z @ drop j z) = strip (drop j z)" by (rule strip_spaces_append[OF assms])
  then show ?thesis by simp
qed

lemma rstrip_append_last:
  assumes "a \<noteq> []" "\<not> is_space (last a)"
  shows "rstrip (a @ z) = a @ rstrip z"
proof -
  from rstrip_decomp[of z] obtain w where w: "z = rstrip z @ w" "\<forall>c\<in>set w. is_space c" by blast
  have "rstrip (a @ z) = rstrip ((a @ rstrip z) @ w)" using w(1) by simp
  also have "\<dots> = rstrip (a @ rstrip z)" by (rule rstrip_append_spaces[OF w(2)])
  also have "\<dots> = a @ rstrip z"
  proof (rule rstrip_id)
    show "a @ rstrip z = [] \<or> \<not> is_space (last (a @ rstrip z))"
      using assms rstrip_last[of z] by (cases "rstrip z = []") simp_all
  qed
  finally show ?thesis .
qed

text \<open>A text with leading whitespace, then a part that begins and ends with a visible
  character, then more text.\<close>

lemma strip_core:
  assumes "\<forall>c\<in>set w. is_space c" and "a \<noteq> []" and "\<not> is_space (hd a)" and "\<not> is_space (last a)"
  shows "strip (w @ a @ z) = a @ rstrip z"
proof -
  have "lstrip (a @ z) = a @ z" using assms(2,3) by (cases a) (simp_all add: lstrip_def)
  then have "strip (w @ a @ z) = rstrip (a @ z)"
    by (simp add: strip_def lstrip_spaces_append[OF assms(1)])
  also have "\<dots> = a @ rstrip z" by (rule rstrip_append_last[OF assms(2,4)])
  finally show ?thesis .
qed

subsection \<open>No header in the empty text; leading whitespace\<close>

lemma header_parse_Nil: "header_parse lab [] = None"
  by (simp add: header_parse_def ci_prefix_def)

lemma header_parse_lead:
  assumes "header_parse lab Y = Some r" and "\<forall>c\<in>set w. is_space c"
  shows "\<exists>r'. header_parse lab (w @ Y) = Some r'"
proof -
  obtain k3 ll j where r: "r = (k3, ll, j)" by (cases r)
  from header_parse_decomp[OF assms(1)[unfolded r]]
  obtain w1 P5 w2 R where d: "Y = w1 @ P5 @ w2 @ R" "\<forall>c\<in>set w1. is_space c"
      "list_all2 ci_eq ''Pasal'' P5" "\<forall>c\<in>set w2. is_space c" "w2 \<noteq> []"
      "R = [] \<or> \<not> is_space (hd R)" "lab R = Some ll" "j \<in> set (trail_js (drop ll R))"
    by blast
  from d(8) obtain j' js where tj: "trail_js (drop ll R) = j' # js" by (cases "trail_js (drop ll R)") auto
  have Y: "w @ Y = (w @ w1) @ P5 @ w2 @ R" by (simp add: d(1))
  have ws: "\<forall>c\<in>set (w @ w1). is_space c" using assms(2) d(2) by auto
  from header_parse_compose[where lab = lab, OF Y ws d(3) d(4) d(5) d(6) d(7) tj] show ?thesis by blast
qed

lemma trail_js_eol: "j \<in> set (trail_js z) \<Longrightarrow> drop j z = [] \<or> z ! j = NL"
  by (simp add: trail_js_def del: upt_Suc)


lemma rx_sub_no_match:
  "(\<And>k. k \<le> length s \<Longrightarrow> rx_match rs (skip k (b, s)) = None) \<Longrightarrow> rx_sub rs rep (b, s) = s"
proof (induction s arbitrary: b)
  case Nil
  from Nil[of 0] have "rx_match rs (b, []) = None" by simp
  then show ?case by (rule rx_sub_None_Nil)
next
  case (Cons c cs)
  from Cons.prems[of 0] have n: "rx_match rs (b, c # cs) = None" by simp
  have "rx_sub rs rep (c = NL, cs) = cs"
  proof (rule Cons.IH)
    fix k assume "k \<le> length cs"
    then have "rx_match rs (skip (Suc k) (b, c # cs)) = None" using Cons.prems[of "Suc k"] by simp
    then show "rx_match rs (skip k (c = NL, cs)) = None" by (simp add: skip_Suc_Cons)
  qed
  with rx_sub_None[OF n, of rep] show ?case by simp
qed

lemma label_own_self: "label_own L0 (L0 @ z) = Some (length L0)"
proof -
  have "ci_prefix L0 (L0 @ z)" using list_all2_ci_refl[of L0] by (auto simp: ci_prefix_iff)
  then show ?thesis by (simp add: label_own_def)
qed

text \<open>A header for the own label that ends the text \<open>Y\<close> or is followed in \<open>Y\<close> by a
  visible character is a header of the general pattern in every text \<open>Y @ Z\<close> in which
  \<open>Z\<close> lets a line end.\<close>

lemma header_parse_extend:
  assumes hp: "header_parse (label_own L0) Y = Some r"
      and L0: "label_len L0 = length L0" "L0 \<noteq> []"
      and Y: "\<not> is_space (last Y)"
      and Z: "trail_js Z \<noteq> []"
  shows "\<exists>r'. header_parse label_any (Y @ Z) = Some r'"
proof -
  obtain k3 ll j where r: "r = (k3, ll, j)" by (cases r)
  from header_parse_decomp[OF hp[unfolded r]]
  obtain w1 P5 w2 R where d: "Y = w1 @ P5 @ w2 @ R" "\<forall>c\<in>set w1. is_space c"
      "list_all2 ci_eq ''Pasal'' P5" "\<forall>c\<in>set w2. is_space c" "w2 \<noteq> []"
      "R = [] \<or> \<not> is_space (hd R)" "label_own L0 R = Some ll" "j \<in> set (trail_js (drop ll R))"
    by blast
  from d(7) have cp: "ci_prefix L0 R" and ll: "ll = length L0"
    by (auto simp: label_own_def split: if_splits)
  from cp obtain L2 Rz where R: "R = L2 @ Rz" and ci: "list_all2 ci_eq L0 L2"
    by (auto simp: ci_prefix_iff)
  have len: "length L2 = length L0" using ci by (simp add: list_all2_lengthD)
  have L2: "L2 \<noteq> []" using len L0(2) by auto
  have Rz: "drop ll R = Rz" by (simp add: R ll len)
  have tz: "trail_js Rz \<noteq> []" using d(8) Rz by auto
  have hz: "Rz = [] \<or> is_space (hd Rz)" using tz by (rule trail_js_hd_space)
  have hZ: "Z = [] \<or> is_space (hd Z)" using Z by (rule trail_js_hd_space)
  have hzZ: "Rz @ Z = [] \<or> is_space (hd (Rz @ Z))" using hz hZ by (cases Rz) auto
  have "label_len (L2 @ (Rz @ Z)) = label_len L2" by (rule label_len_append[OF hzZ])
  also have "\<dots> = label_len L0" by (rule label_len_ci[OF ci, symmetric])
  finally have la: "label_len (L2 @ Rz @ Z) = length L2" using L0(1) len by simp
  have lab: "label_any (R @ Z) = Some (length L2)"
    using la L2 by (simp add: label_any_def R Suc_le_eq)
  have t2: "trail_js (drop (length L2) (R @ Z)) \<noteq> []"
  proof (cases "Rz = []")
    case True then show ?thesis using Z by (simp add: R)
  next
    case False
    have "last Y = last Rz" using False by (simp add: d(1) R)
    then have "\<not> is_space (last Rz)" using Y by simp
    from trail_js_append[OF False this, of Z] tz show ?thesis by (simp add: R)
  qed
  then obtain j' js where tj: "trail_js (drop (length L2) (R @ Z)) = j' # js"
    by (cases "trail_js (drop (length L2) (R @ Z))") auto
  have hR: "R @ Z = [] \<or> \<not> is_space (hd (R @ Z))" using d(6) L2 R by (cases R) auto
  have YZ: "Y @ Z = w1 @ P5 @ w2 @ (R @ Z)" by (simp add: d(1))
  from header_parse_compose[where lab = label_any, OF YZ d(2) d(3) d(4) d(5) hR lab tj]
  show ?thesis by blast
qed


lemma last_header_cursors: "last (header_cursors cur (k3, ll, j)) = skip (k3 + ll + j) cur"
  by (simp add: header_cursors_def)

lemma header_cursors_ne: "header_cursors cur r \<noteq> []"
  by (cases r) (simp add: header_cursors_def)

lemma own_header_core:
  fixes X :: string
  assumes hp: "header_parse label_any X = Some (k3, ll, j)"
      and N1: "k3 + ll + j \<le> N" and N2: "N \<le> length X"
      and bolN: "N = length X \<or> X ! (N - 1) = NL"
      and gap: "\<And>q. k3 + ll + j \<le> q \<Longrightarrow> q < N \<Longrightarrow> X ! (q - 1) = NL \<Longrightarrow>
                  header_parse label_any (drop q X) = None"
  defines "L0 \<equiv> take ll (drop k3 X)"
  defines "B \<equiv> strip (take N X)"
  shows "L0 \<noteq> [] \<and> (\<forall>c\<in>set L0. \<not> is_space c) \<and>
     (\<exists>h. 0 < h \<and> h \<le> length B \<and> rx_sub (own_header_rx L0) [] (True, B) = drop h B
         \<and> strip (drop h B) = strip (take (N - (k3 + ll)) (drop (k3 + ll) X))
         \<and> (\<forall>q. h \<le> q \<longrightarrow> q \<le> length B \<longrightarrow> rx_match (own_header_rx L0) (skip q (True, B)) = None)
         \<and> (h < length B \<longrightarrow> B ! h = NL))"
proof -
  from header_parse_decomp[OF hp]
  obtain w1 P5 w2 R where d: "X = w1 @ P5 @ w2 @ R" "\<forall>c\<in>set w1. is_space c"
      "list_all2 ci_eq ''Pasal'' P5" "\<forall>c\<in>set w2. is_space c" "w2 \<noteq> []"
      "R = [] \<or> \<not> is_space (hd R)" "k3 = length w1 + 5 + length w2"
      "label_any R = Some ll" "j \<in> set (trail_js (drop ll R))" "hd (trail_js (drop ll R)) = j"
    by blast
  have l5: "length P5 = 5" using list_all2_lengthD[OF d(3)] by simp
  from d(8) have ll: "ll = label_len R" "1 \<le> ll" by (auto simp: label_any_def split: if_splits)
  have llR: "ll \<le> length R" using ll(1) label_len_le[of R] by simp
  define Rz where "Rz = drop ll R"
  have dk3: "drop k3 X = R" by (simp add: d(1) d(7) l5)
  have L0R: "L0 = take ll R" by (simp add: L0_def dk3)
  have R: "R = L0 @ Rz" by (simp add: L0R Rz_def)
  have lenL0: "length L0 = ll" using llR by (simp add: L0R)
  have L0ne: "L0 \<noteq> []" using lenL0 ll(2) by auto
  have tz: "trail_js Rz \<noteq> []" using d(9) by (auto simp: Rz_def)
  have hz: "Rz = [] \<or> is_space (hd Rz)" using tz by (rule trail_js_hd_space)
  have "label_len (L0 @ Rz) = label_len L0" by (rule label_len_append[OF hz])
  then have lab0: "label_len L0 = length L0" using ll(1) R lenL0 by simp
  have nsp: "\<forall>c\<in>set L0. \<not> is_space c" using label_len_no_space[OF lab0] by blast
  have hdL0: "\<not> is_space (hd L0)" using nsp L0ne by simp
  have lastL0: "\<not> is_space (last L0)" using nsp L0ne by simp
  define A where "A = P5 @ w2 @ L0"
  from pasal_hd_nonspace[OF d(3)] have P5: "P5 \<noteq> []" "\<not> is_space (hd P5)" by simp_all
  have A: "A \<noteq> []" "\<not> is_space (hd A)" "\<not> is_space (last A)"
    using P5 L0ne lastL0 by (simp_all add: A_def)
  have lenA: "length A = 5 + length w2 + ll" by (simp add: A_def l5 lenL0)
  have XA: "X = w1 @ A @ Rz" by (simp add: d(1) A_def R)
  have lw1A: "length (w1 @ A) = k3 + ll" by (simp add: lenA d(7))
  have dRz: "drop (k3 + ll) X = Rz" using lw1A by (simp add: XA)
  define Z' where "Z' = take (N - (k3 + ll)) Rz"
  have kN: "k3 + ll \<le> N" using N1 by simp
  have tN: "take N X = w1 @ A @ Z'"
  proof -
    define WA where "WA = w1 @ A"
    have lWA: "length WA = k3 + ll" using lw1A by (simp only: WA_def)
    have "take N (WA @ Rz) = take N WA @ take (N - length WA) Rz" by (rule take_append)
    moreover have "take N WA = WA" using kN lWA by simp
    moreover have "X = WA @ Rz" using XA by (simp add: WA_def)
    ultimately have "take N X = WA @ Z'" by (simp only: Z'_def lWA)
    then show ?thesis by (simp add: WA_def)
  qed
  define Zb where "Zb = rstrip Z'"
  have B: "B = A @ Zb" unfolding B_def tN Zb_def by (rule strip_core[OF d(2) A])
  from rstrip_decomp[of Z'] obtain W' where W': "Z' = Zb @ W'" "\<forall>c\<in>set W'. is_space c"
    by (auto simp: Zb_def)
  have RzZ: "Rz = Z' @ drop (N - (k3 + ll)) Rz" by (simp add: Z'_def)
  have dN: "drop (N - (k3 + ll)) Rz = drop N X" using kN by (simp add: dRz[symmetric] add.commute)
  have Xfull: "X = w1 @ B @ W' @ drop N X"
    using XA RzZ W'(1) B dN by simp
  define j' where "j' = (if Zb = [] then 0 else j)"
  have tjb: "Zb \<noteq> [] \<Longrightarrow> trail_js Zb = trail_js Rz"
  proof -
    assume ne: "Zb \<noteq> []"
    have "\<not> is_space (last Zb)" using rstrip_last[of Z'] ne by (simp add: Zb_def)
    from trail_js_append[OF ne this, of "W' @ drop N X"]
    show ?thesis using RzZ W'(1) dN by simp
  qed
  have j'mem: "j' \<in> set (trail_js Zb)" and j'hd: "hd (trail_js Zb) = j'"
    using tjb d(9,10) by (auto simp: j'_def trail_js_Nil Rz_def)
  then obtain js' where tj': "trail_js Zb = j' # js'" by (cases "trail_js Zb") auto
  have j'le: "j' \<le> length Zb"
    using trail_js_le[OF j'mem] length_takeWhile_le[of is_space Zb] by simp
  define h where "h = 5 + length w2 + ll + j'"
  have hA: "h = length A + j'" by (simp add: h_def lenA)
  have hpos: "0 < h" by (simp add: h_def)
  have hle: "h \<le> length B" using j'le by (simp add: hA B)
  have Bd: "B = [] @ P5 @ w2 @ (L0 @ Zb)" by (simp add: B A_def)
  have hdR: "L0 @ Zb = [] \<or> \<not> is_space (hd (L0 @ Zb))" using hdL0 L0ne by simp
  have tj'': "trail_js (drop (length L0) (L0 @ Zb)) = j' # js'" using tj' by simp
  have "header_parse (label_own L0) B = Some (length ([]::string) + 5 + length w2, length L0, j')"
    by (rule header_parse_compose[where lab = "label_own L0", OF Bd _ d(3) d(4) d(5) hdR label_own_self tj'']) simp
  then have hpB: "header_parse (label_own L0) B = Some (5 + length w2, ll, j')" by (simp add: lenL0)
  have mB: "rx_match (own_header_rx L0) (True, B) = Some (header_cursors (True, B) (5 + length w2, ll, j'))"
    by (simp add: rx_match_own[OF L0ne hdL0] hpB)
  have me: "m_end (True, B) (header_cursors (True, B) (5 + length w2, ll, j')) = skip h (True, B)"
    by (simp add: m_end_def header_cursors_ne last_header_cursors h_def)
  have "length (snd (skip h (True, B))) < length (snd (True, B))"
    using hpos hle by (cases B) simp_all
  from rx_sub_Some[OF mB this[folded me], of "[]"]
  have sub1: "rx_sub (own_header_rx L0) [] (True, B) = rx_sub (own_header_rx L0) [] (skip h (True, B))"
    by (simp add: me)
  have none: "rx_match (own_header_rx L0) (skip q (True, B)) = None" if q: "h \<le> q" "q \<le> length B" for q
  proof (rule ccontr)
    assume "rx_match (own_header_rx L0) (skip q (True, B)) \<noteq> None"
    then have bol: "fst (skip q (True, B))"
      and "header_parse (label_own L0) (drop q B) \<noteq> None"
      by (auto simp: rx_match_own[OF L0ne hdL0] split: if_splits)
    then obtain r where hq: "header_parse (label_own L0) (drop q B) = Some r" by auto
    have qlt: "q < length B"
    proof (rule ccontr)
      assume "\<not> q < length B"
      then have "drop q B = []" by simp
      with hq header_parse_Nil show False by simp
    qed
    have Zbne: "Zb \<noteq> []"
    proof
      assume "Zb = []"
      then have "length B = h" by (simp add: B hA j'_def)
      with q qlt show False by simp
    qed
    then have jj: "j' = j" by (simp add: j'_def)
    have q0: "0 < q" using hpos q(1) by simp
    with bol have Bq: "B ! (q - 1) = NL" by (simp add: skip_def)
    have lastB: "\<not> is_space (last B)" using rstrip_last[of Z'] Zbne by (simp add: B Zb_def)
    have "last (drop q B) = last B" using qlt by simp
    then have lastY: "\<not> is_space (last (drop q B))" using lastB by simp
    define Z where "Z = W' @ drop N X"
    have tZ: "trail_js Z \<noteq> []"
    proof (cases "N = length X")
      case True
      then have "\<forall>c\<in>set Z. is_space c" using W'(2) by (simp add: Z_def)
      then show ?thesis by (rule trail_js_all_space)
    next
      case False
      with bolN have nl: "X ! (N - 1) = NL" by simp
      have lenN: "length w1 + length B + length W' = N"
      proof -
        have "length X = length w1 + length B + length W' + length (drop N X)"
          using arg_cong[OF Xfull, of length] by simp
        then show ?thesis using N2 by simp
      qed
      have W'ne: "W' \<noteq> []"
      proof
        assume e: "W' = []"
        have Bne: "B \<noteq> []" using A(1) by (simp add: B)
        have idx: "N - 1 = length w1 + (length B - 1)" using lenN e Bne by (cases B) simp_all
        have "X = w1 @ (B @ drop N X)" using Xfull e by simp
        then have "X ! (N - 1) = (B @ drop N X) ! (length B - 1)"
          unfolding idx by (metis nth_append_length_plus)
        also have "\<dots> = B ! (length B - 1)" using Bne by (simp add: nth_append)
        also have "\<dots> = last B" using Bne by (simp add: last_conv_nth)
        finally show False using nl lastB NL_space by simp
      qed
      have idx: "N - 1 = length (w1 @ B) + (length W' - 1)" using lenN W'ne by (cases W') simp_all
      have "X = (w1 @ B) @ (W' @ drop N X)" using Xfull by simp
      then have "X ! (N - 1) = (W' @ drop N X) ! (length W' - 1)"
        unfolding idx by (metis nth_append_length_plus)
      also have "\<dots> = W' ! (length W' - 1)" using W'ne by (simp add: nth_append)
      also have "\<dots> = last W'" using W'ne by (simp add: last_conv_nth)
      finally have "last W' = NL" using nl by simp
      from trail_js_NL[OF W'(2) W'ne this, of "drop N X"] show ?thesis by (simp add: Z_def)
    qed
    from header_parse_extend[OF hq lab0 L0ne lastY tZ]
    obtain r' where ext: "header_parse label_any (drop q B @ Z) = Some r'" by blast
    have dX: "drop (length w1 + q) X = drop q B @ Z"
      using qlt by (subst Xfull) (simp add: Z_def)
    have 1: "k3 + ll + j \<le> length w1 + q" using q(1) by (simp add: h_def jj d(7))
    have lenN': "length w1 + length B \<le> N"
    proof -
      have "length X = length w1 + length B + length W' + length (drop N X)"
        using arg_cong[OF Xfull, of length] by simp
      then show ?thesis using N2 by simp
    qed
    have 2: "length w1 + q < N" using qlt lenN' by simp
    have 3: "X ! (length w1 + q - 1) = NL"
    proof -
      have idx: "length w1 + q - 1 = length w1 + (q - 1)" using q0 by simp
      have "X = w1 @ (B @ W' @ drop N X)" using Xfull by simp
      then have "X ! (length w1 + q - 1) = (B @ W' @ drop N X) ! (q - 1)"
        unfolding idx by (metis nth_append_length_plus)
      also have "\<dots> = B ! (q - 1)"
      proof -
        have "q - 1 < length B" using qlt by arith
        then show ?thesis by (simp add: nth_append)
      qed
      finally show ?thesis using Bq by simp
    qed
    from gap[OF 1 2 3] ext dX show False by simp
  qed
  have "rx_sub (own_header_rx L0) [] (skip h (True, B)) = snd (skip h (True, B))"
  proof -
    obtain b s where bs: "skip h (True, B) = (b, s)" by (cases "skip h (True, B)")
    have s: "s = drop h B" using arg_cong[OF bs, of snd] by simp
    have "rx_sub (own_header_rx L0) [] (b, s) = s"
    proof (rule rx_sub_no_match)
      fix k assume k: "k \<le> length s"
      have "skip k (skip h (True, B)) = skip (h + k) (True, B)" using hle by (simp add: skip_skip)
      moreover have "rx_match (own_header_rx L0) (skip (h + k) (True, B)) = None"
        by (rule none) (use k s hle in simp_all)
      ultimately show "rx_match (own_header_rx L0) (skip k (b, s)) = None" by (simp add: bs)
    qed
    then show ?thesis by (simp add: bs)
  qed
  with sub1 have sub: "rx_sub (own_header_rx L0) [] (True, B) = drop h B" by simp
  have dh: "drop h B = drop j' Zb" by (simp add: B hA)
  have "\<forall>c\<in>set (take j' Zb). is_space c" using trail_js_spaces[OF j'mem] by blast
  then have "strip (drop j' Zb) = strip Zb" by (rule strip_drop_spaces)
  also have "\<dots> = strip Z'" unfolding Zb_def by (rule strip_rstrip)
  finally have rest: "strip (drop h B) = strip (take (N - (k3 + ll)) (drop (k3 + ll) X))"
    by (simp add: dh Z'_def dRz)
  have eol: "B ! h = NL" if "h < length B"
  proof -
    from that have "j' < length Zb" by (simp add: B hA)
    with trail_js_eol[OF j'mem] have "Zb ! j' = NL" by simp
    then show ?thesis by (simp add: B hA nth_append)
  qed
  from L0ne nsp hpos hle sub rest none eol show ?thesis by blast
qed


lemma header_parse_bound:
  assumes "header_parse lab X = Some (k3, ll, j)" and "\<And>x l. lab x = Some l \<Longrightarrow> l \<le> length x"
  shows "k3 + ll + j \<le> length X" and "0 < k3"
proof -
  from header_parse_decomp[OF assms(1)]
  obtain w1 P5 w2 R where d: "X = w1 @ P5 @ w2 @ R" "list_all2 ci_eq ''Pasal'' P5"
      "k3 = length w1 + 5 + length w2" "lab R = Some ll" "j \<in> set (trail_js (drop ll R))"
    by blast
  have l5: "length P5 = 5" using list_all2_lengthD[OF d(2)] by simp
  have "ll \<le> length R" using assms(2)[OF d(4)] .
  moreover have "j \<le> length (drop ll R)"
    using trail_js_le[OF d(5)] length_takeWhile_le[of is_space "drop ll R"] by simp
  ultimately show "k3 + ll + j \<le> length X" by (simp add: d(1) d(3) l5)
  show "0 < k3" by (simp add: d(3))
qed

lemma label_any_le: "label_any x = Some l \<Longrightarrow> l \<le> length x"
  using label_len_le[of x] by (auto simp: label_any_def split: if_splits)

lemma consuming_PASAL: "consuming PASAL_ANY_RE"
  unfolding consuming_def
proof (intro allI impI)
  fix cur m assume m: "rx_match PASAL_ANY_RE cur = Some m"
  then obtain r where hp: "header_parse label_any (snd cur) = Some r" and mm: "m = header_cursors cur r"
    by (auto simp: rx_match_PASAL split: if_splits)
  obtain k3 ll j where r: "r = (k3, ll, j)" by (cases r)
  from header_parse_bound[OF hp[unfolded r] label_any_le]
  have b: "k3 + ll + j \<le> length (snd cur)" "0 < k3" by simp_all
  have "m_end cur m = skip (k3 + ll + j) cur"
    by (simp add: m_end_def mm r header_cursors_ne last_header_cursors)
  then show "length (snd (m_end cur m)) < length (snd cur)" using b by simp
qed

lemma snd_block_spans_nth:
  assumes "i < length (pasal_matches t)"
  shows "snd (block_spans t ! i) =
     (if Suc i < length (pasal_matches t) then fst (pasal_matches t ! Suc i) else length t)"
proof -
  let ?st = "map fst (pasal_matches t)"
  have l: "length (tl ?st @ [length t]) = length ?st" using assms by (cases "pasal_matches t") auto
  have "block_spans t ! i = (?st ! i, (tl ?st @ [length t]) ! i)"
    using assms l by (simp add: block_spans_def Let_def)
  moreover have "(tl ?st @ [length t]) ! i = (if Suc i < length ?st then ?st ! Suc i else length t)"
    using assms by (auto simp: nth_append nth_tl)
  ultimately show ?thesis using assms by simp
qed

text \<open>The facts about one block.\<close>

lemma block_header_facts:
  assumes i: "i < length (pasal_matches t)"
  defines "p \<equiv> fst (pasal_matches t ! i)"
  defines "m \<equiv> snd (pasal_matches t ! i)"
  defines "e \<equiv> snd (block_spans t ! i)"
  defines "B \<equiv> strip (slice t p e)"
  shows "pasal_label m \<noteq> [] \<and> (\<forall>c\<in>set (pasal_label m). \<not> is_space c) \<and>
     (\<exists>h. 0 < h \<and> h \<le> length B \<and> rx_sub (own_header_rx (pasal_label m)) [] (True, B) = drop h B
         \<and> strip (drop h B) = strip (slice t (label_end t m) e)
         \<and> (\<forall>q. h \<le> q \<longrightarrow> q \<le> length B \<longrightarrow> rx_match (own_header_rx (pasal_label m)) (skip q (True, B)) = None)
         \<and> (h < length B \<longrightarrow> B ! h = NL))"
proof -
  define L where "L = pasal_matches t"
  have iL: "i < length (finditer PASAL_ANY_RE 0 (True, t))" using i by (simp add: pasal_matches_def)
  define pe where "pe = length t - length (snd (m_end (skip p (True, t)) m))"
  have e: "e = (if Suc i < length L then fst (L ! Suc i) else length t)"
    unfolding e_def L_def by (rule snd_block_spans_nth[OF i])
  have LF: "L = finditer PASAL_ANY_RE 0 (True, t)" by (simp add: L_def pasal_matches_def)
  have pF: "p = fst (finditer PASAL_ANY_RE 0 (True, t) ! i)"
    and mF: "m = snd (finditer PASAL_ANY_RE 0 (True, t) ! i)"
    by (simp_all add: p_def m_def pasal_matches_def)
  have mt: "rx_match PASAL_ANY_RE (skip p (True, t)) = Some m"
    unfolding pF mF by (rule finditer_gap(1)[OF consuming_PASAL iL])
  have ppe: "p < pe"
    unfolding pe_def unfolding pF mF by (rule finditer_gap(2)[OF consuming_PASAL iL])
  have pee: "pe \<le> e"
    unfolding pe_def e LF unfolding pF mF by (rule finditer_gap(3)[OF consuming_PASAL iL])
  have et: "e \<le> length t"
    unfolding e LF by (rule finditer_gap(4)[OF consuming_PASAL iL])
  have gapt: "rx_match PASAL_ANY_RE (skip k (True, t)) = None" if "pe \<le> k" "k < e" for k
    using that unfolding pe_def e LF unfolding pF mF by (rule finditer_gap(6)[OF consuming_PASAL iL])
  define X where "X = drop p t"
  have pt: "p \<le> length t" using ppe pee et by simp
  have sX: "snd (skip p (True, t)) = X" by (simp add: X_def)
  from mt have "\<exists>r. header_parse label_any (drop p t) = Some r \<and> m = header_cursors (skip p (True, t)) r"
    by (auto simp: rx_match_PASAL split: if_splits)
  then obtain r where hp0: "header_parse label_any X = Some r"
      and mm: "m = header_cursors (skip p (True, t)) r"
    unfolding X_def by blast
  obtain k3 ll j where r: "r = (k3, ll, j)" by (cases r)
  note hp = hp0[unfolded r]
  from header_parse_bound[OF hp label_any_le]
  have bnd: "k3 + ll + j \<le> length X" "0 < k3" by simp_all
  have m0: "m ! 0 = skip (p + k3) (True, t)" and m1: "m ! 1 = skip (p + (k3 + ll)) (True, t)"
    and mend: "m_end (skip p (True, t)) m = skip (p + (k3 + ll + j)) (True, t)"
    using pt by (simp_all add: mm r header_cursors_def m_end_def skip_skip)
  have m1': "m ! Suc 0 = skip (p + (k3 + ll)) (True, t)" using m1 by simp
  have lenX: "length X = length t - p" by (simp add: X_def)
  have pe: "pe = p + (k3 + ll + j)" using bnd pt by (simp add: pe_def mend lenX)
  have le: "label_end t m = p + (k3 + ll)" using bnd pt by (simp add: label_end_def m1' lenX)
  define N where "N = e - p"
  have N1: "k3 + ll + j \<le> N" using pee pe by (simp add: N_def)
  have N2: "N \<le> length X" using et by (simp add: N_def lenX)
  have eN: "e = p + N" using pee pe by (simp add: N_def)
  have bolN: "N = length X \<or> X ! (N - 1) = NL"
  proof (cases "Suc i < length L")
    case False
    then have "e = length t" by (simp add: e)
    then show ?thesis by (simp add: N_def lenX)
  next
    case True
    then have ef: "e = fst (L ! Suc i)" by (simp add: e)
    have "(e, snd (L ! Suc i)) \<in> set (pasal_matches t)" using True by (simp add: ef L_def)
    from finditer_sound[OF this[unfolded pasal_matches_def]]
    have "rx_match PASAL_ANY_RE (skip e (True, t)) \<noteq> None" by simp
    then have "fst (skip e (True, t))" by (auto simp: rx_match_PASAL split: if_splits)
    moreover have "0 < e" using ppe pee by simp
    ultimately have "t ! (e - 1) = NL" by (simp add: skip_def)
    moreover have "X ! (N - 1) = t ! (p + (N - 1))" using N2 N1 bnd pt by (simp add: X_def)
    moreover have "p + (N - 1) = e - 1" using eN N1 bnd by simp
    ultimately show ?thesis by simp
  qed
  have gap: "header_parse label_any (drop q X) = None"
    if q: "k3 + ll + j \<le> q" "q < N" "X ! (q - 1) = NL" for q
  proof -
    have "rx_match PASAL_ANY_RE (skip (p + q) (True, t)) = None"
      by (rule gapt) (use q pe eN in simp_all)
    moreover have "0 < q" using q(1) bnd(2) by simp
    moreover have "t ! (p + q - 1) = X ! (q - 1)"
    proof -
      have "p + q - 1 = p + (q - 1)" using \<open>0 < q\<close> by simp
      moreover have "p + (q - 1) < length t" using q(2) N2 lenX \<open>0 < q\<close> by simp
      ultimately show ?thesis by (simp add: X_def)
    qed
    ultimately have n: "rx_match PASAL_ANY_RE (skip (p + q) (True, t)) = None"
      and f: "fst (skip (p + q) (True, t))"
      using q(3) by (simp_all add: skip_def)
    from n f have "map_option (header_cursors (skip (p + q) (True, t)))
        (header_parse label_any (snd (skip (p + q) (True, t)))) = None"
      by (simp add: rx_match_PASAL)
    then have "header_parse label_any (drop (p + q) t) = None" by simp
    then show ?thesis by (simp add: X_def add.commute)
  qed
  from own_header_core[OF hp N1 N2 bolN gap]
  have core: "take ll (drop k3 X) \<noteq> [] \<and> (\<forall>c\<in>set (take ll (drop k3 X)). \<not> is_space c) \<and>
     (\<exists>h. 0 < h \<and> h \<le> length (strip (take N X))
         \<and> rx_sub (own_header_rx (take ll (drop k3 X))) [] (True, strip (take N X)) = drop h (strip (take N X))
         \<and> strip (drop h (strip (take N X))) = strip (take (N - (k3 + ll)) (drop (k3 + ll) X))
         \<and> (\<forall>q. h \<le> q \<longrightarrow> q \<le> length (strip (take N X)) \<longrightarrow>
               rx_match (own_header_rx (take ll (drop k3 X))) (skip q (True, strip (take N X))) = None)
         \<and> (h < length (strip (take N X)) \<longrightarrow> strip (take N X) ! h = NL))"
    by blast
  define L0 where "L0 = take ll (drop k3 X)"
  have BB: "strip (take N X) = B" by (simp add: B_def slice_def N_def X_def)
  have bet: "between (m ! 0) (m ! 1) = L0"
  proof -
    have "length (snd (m ! 0)) - length (snd (m ! 1)) = ll" using bnd lenX pt by (simp add: m0 m1')
    then show ?thesis by (simp add: between_def m0 L0_def X_def add.commute)
  qed
  have L0: "L0 \<noteq> []" "\<forall>c\<in>set L0. \<not> is_space c" using core by (simp_all add: L0_def)
  have "strip L0 = L0" by (rule strip_id) (use L0 in simp)
  then have pl: "pasal_label m = L0" using bet by (simp add: pasal_label_def)
  have rest: "take (N - (k3 + ll)) (drop (k3 + ll) X) = slice t (label_end t m) e"
    by (simp add: slice_def le X_def eN add.commute)
  show ?thesis using core unfolding L0_def[symmetric] BB pl[symmetric] rest by blast
qed


section \<open>The body of a block\<close>

lemma detect_structure_text_nth:
  assumes "i < length (pasal_matches t)"
  shows "b_text (detect_structure t ! i) =
     block_body t (pasal_label (snd (pasal_matches t ! i))) (block_spans t ! i)"
    and "b_pasal_number (detect_structure t ! i) = pasal_label (snd (pasal_matches t ! i))"
  using assms by (simp_all add: detect_structure_def Let_def split_beta)

lemma block_spans_nth_pair:
  assumes "i < length (pasal_matches t)"
  shows "block_spans t ! i = (fst (pasal_matches t ! i), snd (block_spans t ! i))"
  using fst_block_spans_nth[OF assms] by (metis prod.collapse)

text \<open>
  Claim C4 fails as stated: structure detection itself trims the body and replaces every
  run of spaces and tabs by one space (\<open>re.sub(r'[ \t]+', ' ', body)\<close>, "tidy whitespace").
  The block of \<open>Pasal 1\<close> below spans the whole text, and its body is \<open>a b\<close>, not \<open>a  b\<close>.
\<close>

theorem body_counterexample:
  "block_spans ''Pasal 1\<newline>a  b'' = [(0, 12)]
   \<and> map b_text (detect_structure ''Pasal 1\<newline>a  b'') = [''a b'']"
  by code_simp

text \<open>
  Claim C4, amended.  For every text and every detected block, the body that structure
  detection hands to the normalizer is the raw text from the end of the label of the
  block's header to the end of the block, with leading and trailing whitespace trimmed
  and every run of spaces and tabs replaced by one space; nothing else is changed.
\<close>

theorem body_is_tidied_rest_of_block:
  assumes "i < length (detect_structure t)"
  shows "b_text (detect_structure t ! i) =
     collapse_runs is_hspace 1 '' ''
       (strip (slice t (label_end t (snd (pasal_matches t ! i))) (snd (block_spans t ! i))))"
proof -
  from assms have i: "i < length (pasal_matches t)" by simp
  define p where "p = fst (pasal_matches t ! i)"
  define m where "m = snd (pasal_matches t ! i)"
  define e where "e = snd (block_spans t ! i)"
  define B where "B = strip (slice t p e)"
  from block_header_facts[OF i, folded p_def m_def e_def, folded B_def]
  obtain h where h: "rx_sub (own_header_rx (pasal_label m)) [] (True, B) = drop h B"
      "strip (drop h B) = strip (slice t (label_end t m) e)" by blast
  have se: "block_spans t ! i = (p, e)" unfolding p_def e_def by (rule block_spans_nth_pair[OF i])
  have "b_text (detect_structure t ! i) = block_body t (pasal_label m) (p, e)"
    using detect_structure_text_nth(1)[OF i] by (simp add: m_def se)
  also have "\<dots> = rx_sub [Rep is_hspace 1] '' '' (True, strip (rx_sub (own_header_rx (pasal_label m)) [] (True, B)))"
    by (simp add: block_body_def Let_def B_def)
  also have "\<dots> = collapse_runs is_hspace 1 '' '' (strip (slice t (label_end t m) e))"
    by (simp add: h rx_sub_Rep)
  finally show ?thesis by (simp add: m_def e_def)
qed

theorem body_is_tidied_rest_of_block_witness:
  "0 < length (detect_structure ''BAB I\<newline>Pasal 1\<newline>(1)  satu\<newline> \<newline>Pasal 2\<newline>dua'')
   \<and> label_end ''BAB I\<newline>Pasal 1\<newline>(1)  satu\<newline> \<newline>Pasal 2\<newline>dua''
        (snd (pasal_matches ''BAB I\<newline>Pasal 1\<newline>(1)  satu\<newline> \<newline>Pasal 2\<newline>dua'' ! 0)) = 13
   \<and> snd (block_spans ''BAB I\<newline>Pasal 1\<newline>(1)  satu\<newline> \<newline>Pasal 2\<newline>dua'' ! 0) = 24
   \<and> b_text (detect_structure ''BAB I\<newline>Pasal 1\<newline>(1)  satu\<newline> \<newline>Pasal 2\<newline>dua'' ! 0) = ''(1) satu''"
proof -
  let ?t = "''BAB I\<newline>Pasal 1\<newline>(1)  satu\<newline> \<newline>Pasal 2\<newline>dua''"
  have h: "0 < length (detect_structure ?t)" by code_simp
  have l: "label_end ?t (snd (pasal_matches ?t ! 0)) = 13" by code_simp
  have e: "snd (block_spans ?t ! 0) = 24" by code_simp
  have c: "collapse_runs is_hspace 1 '' '' (strip (slice ?t 13 24)) = ''(1) satu''" by code_simp
  from body_is_tidied_rest_of_block[OF h] h l e c show ?thesis by simp
qed

end
